theory Spec2Isabelle
  imports Main
begin

section \<open>Strings\<close>

text \<open>
  The linter works on JavaScript strings. A string is modelled as a \<^typ>\<open>string\<close>, one
  \<^typ>\<open>char\<close> per code unit, so the model covers texts and paths whose code units lie in
  the range 0 to 255. Positions and lengths count code units, as \<^verbatim>\<open>match.index\<close> and
  \<^verbatim>\<open>String.prototype.length\<close> do.
\<close>

text \<open>\<^verbatim>\<open>s.split(sep)\<close> for a separator of one character: never empty, the empty string
  gives one empty piece.\<close>

fun split :: "string \<Rightarrow> char \<Rightarrow> string list" where
  "split [] sep = [[]]"
| "split (c # cs) sep =
     (let pieces = split cs sep
      in if c = sep then [] # pieces else (c # hd pieces) # tl pieces)"

text \<open>\<^verbatim>\<open>toLowerCase\<close> on one code unit below 256: the letters A to Z, and the upper-case
  letters of Latin-1 (0xC0 to 0xDE without the multiplication sign 0xD7).\<close>

definition lower_char :: "char \<Rightarrow> char" where
  "lower_char c =
     (let n = (of_char c :: nat) in
      if (65 \<le> n \<and> n \<le> 90) \<or> (192 \<le> n \<and> n \<le> 222 \<and> n \<noteq> 215)
      then char_of (n + 32) else c)"

definition toLowerCase :: "string \<Rightarrow> string" where
  "toLowerCase s = map lower_char s"

text \<open>\<^verbatim>\<open>filePath.split('.').pop().toLowerCase()\<close>; \<^verbatim>\<open>pop\<close> gives the last piece, and
  \<^const>\<open>split\<close> never returns the empty list.\<close>

definition getExtension :: "string \<Rightarrow> string" where
  "getExtension filePath = toLowerCase (last (split filePath (CHR ''.'')))"

section \<open>Regular expressions\<close>

text \<open>
  The patterns of the rules are regular expression literals. Their syntax trees are written
  with the constructors below (the part of the ECMAScript pattern grammar that the rules
  use), and \<open>matcher\<close> follows the backtracking semantics of ECMAScript: it returns, in the
  order in which backtracking tries them, the end positions of the matches of a pattern
  that start at position \<open>x\<close> of the string. The first one is the match the engine reports.
  Captures are not modelled: the linter reads only \<^verbatim>\<open>match.index\<close>.
\<close>

datatype regex =
    Empty                  \<comment> \<open>the empty alternative\<close>
  | Chr char               \<comment> \<open>a pattern character, or an escaped one: \<^verbatim>\<open>\.\<close> \<^verbatim>\<open>\(\<close> \<^verbatim>\<open>\*\<close> \<^verbatim>\<open>\t\<close>\<close>
  | AnyChar                \<comment> \<open>\<^verbatim>\<open>.\<close>\<close>
  | Space                  \<comment> \<open>\<^verbatim>\<open>\s\<close>\<close>
  | WordChar               \<comment> \<open>\<^verbatim>\<open>\w\<close>\<close>
  | WordBoundary           \<comment> \<open>\<^verbatim>\<open>\b\<close>\<close>
  | EndOfInput             \<comment> \<open>\<^verbatim>\<open>$\<close>\<close>
  | NotFollowedBy regex    \<comment> \<open>\<^verbatim>\<open>(?!r)\<close>\<close>
  | Group regex            \<comment> \<open>\<^verbatim>\<open>(r)\<close>\<close>
  | Repeat regex nat       \<comment> \<open>greedy, at least \<open>n\<close> times: \<^verbatim>\<open>r*\<close> is 0, \<^verbatim>\<open>r+\<close> is 1, \<^verbatim>\<open>r{n,}\<close> is \<open>n\<close>\<close>
  | Seq regex regex        \<comment> \<open>\<^verbatim>\<open>r1r2\<close>\<close>
  | Alt regex regex        \<comment> \<open>\<^verbatim>\<open>r1|r2\<close>\<close>

text \<open>A run of pattern characters, such as \<^verbatim>\<open>var\<close>.\<close>

fun str :: "string \<Rightarrow> regex" where
  "str [] = Empty"
| "str [c] = Chr c"
| "str (c # cs) = Seq (Chr c) (str cs)"

text \<open>Line terminators below 256 are line feed and carriage return.\<close>

definition isLineTerminator :: "char \<Rightarrow> bool" where
  "isLineTerminator c = ((of_char c :: nat) = 10 \<or> (of_char c :: nat) = 13)"

text \<open>\<^verbatim>\<open>\s\<close>: white space and line terminators; below 256 these are tab, line feed,
  vertical tab, form feed, carriage return, space and no-break space.\<close>

definition isWhiteSpace :: "char \<Rightarrow> bool" where
  "isWhiteSpace c =
     (let n = (of_char c :: nat) in (9 \<le> n \<and> n \<le> 13) \<or> n = 32 \<or> n = 160)"

text \<open>\<^verbatim>\<open>\w\<close>: the letters a to z and A to Z, the digits and the underscore.\<close>

definition isWordChar :: "char \<Rightarrow> bool" where
  "isWordChar c =
     (let n = (of_char c :: nat) in
      (97 \<le> n \<and> n \<le> 122) \<or> (65 \<le> n \<and> n \<le> 90) \<or> (48 \<le> n \<and> n \<le> 57) \<or> n = 95)"

text \<open>\<^verbatim>\<open>IsWordChar(e)\<close> of the specification of \<^verbatim>\<open>\b\<close>: false outside the string.\<close>

definition wordCharAt :: "string \<Rightarrow> int \<Rightarrow> bool" where
  "wordCharAt s e = (0 \<le> e \<and> e < int (length s) \<and> isWordChar (s ! nat e))"

text \<open>One character of the string at position \<open>x\<close> that satisfies \<open>p\<close>.\<close>

definition char_matcher :: "(char \<Rightarrow> bool) \<Rightarrow> string \<Rightarrow> nat \<Rightarrow> nat list" where
  "char_matcher p s x = (if x < length s \<and> p (s ! x) then [Suc x] else [])"

text \<open>
  \<^verbatim>\<open>RepeatMatcher\<close> for a greedy quantifier without upper bound. \<open>m\<close> matches the
  quantified atom, \<open>n\<close> is the number of iterations still required. While iterations are
  required, the atom is matched and the count goes down. After that, one more iteration is
  tried first and stopping at \<open>x\<close> is the last resort; an iteration that matched the empty
  string is rejected. An atom never ends before it starts nor after the end of the string,
  which is what the side condition \<open>x < y \<and> y \<le> len\<close> says for \<open>y \<noteq> x\<close>.
\<close>

function repeat_matcher :: "(nat \<Rightarrow> nat list) \<Rightarrow> nat \<Rightarrow> nat \<Rightarrow> nat \<Rightarrow> nat list" where
  "repeat_matcher m len n x =
     (if n \<noteq> 0 then concat (map (\<lambda>y. repeat_matcher m len (n - 1) y) (m x))
      else concat (map (\<lambda>y. if x < y \<and> y \<le> len then repeat_matcher m len 0 y else []) (m x))
           @ [x])"
  by pat_completeness auto
termination
  by (relation "measures [\<lambda>(m, len, n, x). n, \<lambda>(m, len, n, x). len - x]") auto

declare repeat_matcher.simps [simp del]

text \<open>The flag \<open>ml\<close> is the \<^verbatim>\<open>m\<close> (multiline) flag, which only \<^verbatim>\<open>$\<close> reads.\<close>

primrec matcher :: "regex \<Rightarrow> bool \<Rightarrow> string \<Rightarrow> nat \<Rightarrow> nat list" where
  "matcher Empty ml s x = [x]"
| "matcher (Chr c) ml s x = char_matcher (\<lambda>d. d = c) s x"
| "matcher AnyChar ml s x = char_matcher (\<lambda>d. \<not> isLineTerminator d) s x"
| "matcher Space ml s x = char_matcher isWhiteSpace s x"
| "matcher WordChar ml s x = char_matcher isWordChar s x"
| "matcher WordBoundary ml s x =
     (if wordCharAt s (int x - 1) \<noteq> wordCharAt s (int x) then [x] else [])"
| "matcher EndOfInput ml s x =
     (if x = length s \<or> (ml \<and> x < length s \<and> isLineTerminator (s ! x)) then [x] else [])"
| "matcher (NotFollowedBy r) ml s x = (if matcher r ml s x = [] then [x] else [])"
| "matcher (Group r) ml s x = matcher r ml s x"
| "matcher (Repeat r n) ml s x = repeat_matcher (matcher r ml s) (length s) n x"
| "matcher (Seq r1 r2) ml s x = concat (map (matcher r2 ml s) (matcher r1 ml s x))"
| "matcher (Alt r1 r2) ml s x = matcher r1 ml s x @ matcher r2 ml s x"

section \<open>RegExp objects\<close>

text \<open>The flags that the patterns of the linter carry: \<^verbatim>\<open>g\<close> and \<^verbatim>\<open>m\<close>.\<close>

record regexp_flags =
  global :: bool
  multiline :: bool

text \<open>A \<^verbatim>\<open>RegExp\<close> object: its pattern, its flags and its mutable cursor
  \<^verbatim>\<open>lastIndex\<close>.\<close>

record regexp =
  source :: regex
  flags :: regexp_flags
  lastIndex :: nat

text \<open>\<^verbatim>\<open>new RegExp(source, flags)\<close>: a fresh object, its cursor at 0.\<close>

definition new_RegExp :: "regex \<Rightarrow> regexp_flags \<Rightarrow> regexp" where
  "new_RegExp src fl = \<lparr>source = src, flags = fl, lastIndex = 0\<rparr>"

text \<open>
  The search of \<^verbatim>\<open>RegExpBuiltinExec\<close>: starting at \<open>i\<close>, the first position at which the
  pattern matches, with the end of that match; \<open>None\<close> once \<open>i\<close> is beyond the end of the
  string.
\<close>

function search :: "regex \<Rightarrow> bool \<Rightarrow> string \<Rightarrow> nat \<Rightarrow> (nat \<times> nat) option" where
  "search r ml s i =
     (if length s < i then None
      else case matcher r ml s i of
             [] \<Rightarrow> search r ml s (Suc i)
           | e # _ \<Rightarrow> Some (i, e))"
  by pat_completeness auto
termination
  by (relation "measure (\<lambda>(r, ml, s, i). Suc (length s) - i)") auto

declare search.simps [simp del]

text \<open>
  \<^verbatim>\<open>regex.exec(s)\<close>: the index of the match found, or \<open>None\<close> for \<^verbatim>\<open>null\<close>, and the object
  with its cursor updated. Without the \<^verbatim>\<open>g\<close> flag the search starts at 0 and the cursor
  is left alone; with it the search starts at the cursor, which moves to the end of the
  match, or back to 0 when there is none.
\<close>

definition exec :: "regexp \<Rightarrow> string \<Rightarrow> nat option \<times> regexp" where
  "exec R s =
     (let g = global (flags R);
          start = (if g then lastIndex R else 0)
      in case search (source R) (multiline (flags R)) s start of
           None \<Rightarrow> (None, if g then R\<lparr>lastIndex := 0\<rparr> else R)
         | Some (i, e) \<Rightarrow> (Some i, if g then R\<lparr>lastIndex := e\<rparr> else R))"

text \<open>\<^verbatim>\<open>regex.test(s)\<close> is \<^verbatim>\<open>regex.exec(s) !== null\<close>.\<close>

definition test :: "regexp \<Rightarrow> string \<Rightarrow> bool" where
  "test R s = (fst (exec R s) \<noteq> None)"

section \<open>Rules and issues\<close>

datatype severity = Error | Warning | Info

text \<open>A rule of \<^verbatim>\<open>LINT_RULES\<close>; \<open>lang\<close> is \<open>None\<close> for a rule without a language list.\<close>

record lint_rule =
  lang :: "string list option"
  pattern :: regexp
  issue :: string
  severity :: severity

text \<open>An issue, as \<^verbatim>\<open>lintFile\<close> pushes it.\<close>

record lint_issue =
  "file" :: string
  line :: nat
  issue :: string
  severity :: severity
  column :: nat

definition flag_g :: regexp_flags where
  "flag_g = \<lparr>global = True, multiline = False\<rparr>"

definition flags_gm :: regexp_flags where
  "flags_gm = \<lparr>global = True, multiline = True\<rparr>"

text \<open>A regular expression literal: an object whose cursor starts at 0.\<close>

definition literal :: "regex \<Rightarrow> regexp_flags \<Rightarrow> regexp" where
  "literal r fl = \<lparr>source = r, flags = fl, lastIndex = 0\<rparr>"

definition js_ts :: "string list option" where
  "js_ts = Some [''js'', ''ts'', ''jsx'', ''tsx'']"

definition LINT_RULES :: "lint_rule list" where
  "LINT_RULES =
    [\<lparr>lang = js_ts,
      pattern = literal (Seq WordBoundary (Seq (str ''var'') (Seq (Repeat Space 1) (Repeat WordChar 1)))) flag_g,
      issue = ''Use \"let\" or \"const\" instead of \"var\"'', severity = Warning\<rparr>,
     \<lparr>lang = js_ts,
      pattern = literal (Seq (str ''console'') (Seq (Chr (CHR ''.''))
                  (Seq (Group (Alt (str ''log'') (Alt (str ''debug'') (str ''info''))))
                       (Chr (CHR ''(''))))) flag_g,
      issue = ''Remove debug statements'', severity = Warning\<rparr>,
     \<lparr>lang = js_ts,
      pattern = literal (Alt (str ''TODO'') (Alt (str ''FIXME'') (str ''HACK:''))) flag_g,
      issue = ''TODO/FIXME comment found'', severity = Info\<rparr>,
     \<lparr>lang = js_ts,
      pattern = literal (Seq (str ''=='') (NotFollowedBy (Chr (CHR ''='')))) flag_g,
      issue = ''Use === instead of =='', severity = Warning\<rparr>,
     \<lparr>lang = js_ts,
      pattern = literal (Seq (str ''new'') (Seq (Repeat Space 1) (str ''Array(''))) flag_g,
      issue = ''Use array literal []'', severity = Info\<rparr>,
     \<lparr>lang = js_ts,
      pattern = literal (Seq (str ''throw'') (Seq (Repeat Space 1) (Seq (str ''new'')
                  (Seq (Repeat Space 1) (str ''Error''))))) flag_g,
      issue = ''Just \"throw Error\" is enough'', severity = Info\<rparr>,
     \<lparr>lang = Some [''py''],
      pattern = literal (Seq (str ''except'') (Seq (Repeat Space 0) (Chr (CHR '':'')))) flag_g,
      issue = ''Use \"except Exception:\"'', severity = Warning\<rparr>,
     \<lparr>lang = Some [''py''],
      pattern = literal (Seq (str ''print'') (Seq (Repeat Space 0) (Chr (CHR ''('')))) flag_g,
      issue = ''Consider using logging'', severity = Info\<rparr>,
     \<lparr>lang = Some [''py''],
      pattern = literal (Seq (str ''from'') (Seq (Repeat Space 1) (Seq (Repeat WordChar 1)
                  (Seq (Repeat Space 1) (Seq (str ''import'') (Seq (Repeat Space 1)
                  (Chr (CHR ''*'')))))))) flag_g,
      issue = ''Avoid wildcard imports'', severity = Warning\<rparr>,
     \<lparr>lang = None,
      pattern = literal (Repeat AnyChar 120) flag_g,
      issue = ''Line exceeds 120 characters'', severity = Info\<rparr>,
     \<lparr>lang = None,
      pattern = literal (Seq (Repeat Space 1) EndOfInput) flags_gm,
      issue = ''Trailing whitespace'', severity = Info\<rparr>,
     \<lparr>lang = None,
      pattern = literal (Chr (CHR 0x09)) flag_g,
      issue = ''Use spaces instead of tabs'', severity = Warning\<rparr>]"

section \<open>lintFile\<close>

text \<open>
  The loop \<^verbatim>\<open>while ((match = regex.exec(line)) !== null) issues.push(...)\<close>. Nothing in its
  body moves the cursor, so the loop need not end: \<open>None\<close> is a loop that runs forever.
\<close>

partial_function (option) exec_loop ::
  "string \<Rightarrow> nat \<Rightarrow> lint_rule \<Rightarrow> regexp \<Rightarrow> string \<Rightarrow> lint_issue list \<Rightarrow> lint_issue list option"
where
  "exec_loop filePath lineNum rule regex ln issues =
     (case exec regex ln of
        (None, regex') \<Rightarrow> Some issues
      | (Some match_index, regex') \<Rightarrow>
          exec_loop filePath lineNum rule regex' ln
            (issues @ [\<lparr>file = filePath, line = lineNum, issue = lint_rule.issue rule,
                        severity = lint_rule.severity rule, column = match_index + 1\<rparr>]))"

declare exec_loop.simps [code]

text \<open>\<^verbatim>\<open>rule.lang && !rule.lang.includes(ext)\<close>: the rule is skipped. An array is truthy
  even when empty.\<close>

definition skipped :: "lint_rule \<Rightarrow> string \<Rightarrow> bool" where
  "skipped rule ext = (case lang rule of None \<Rightarrow> False | Some langs \<Rightarrow> ext \<notin> set langs)"

text \<open>The loop over the rules, for one line.\<close>

fun rules_loop ::
  "string \<Rightarrow> string \<Rightarrow> nat \<Rightarrow> string \<Rightarrow> lint_rule list \<Rightarrow> lint_issue list \<Rightarrow> lint_issue list option"
where
  "rules_loop filePath ext lineNum ln [] issues = Some issues"
| "rules_loop filePath ext lineNum ln (rule # rules) issues =
     (if skipped rule ext then rules_loop filePath ext lineNum ln rules issues
      else case exec_loop filePath lineNum rule
                  (new_RegExp (source (pattern rule)) (flags (pattern rule))) ln issues of
             None \<Rightarrow> None
           | Some issues' \<Rightarrow> rules_loop filePath ext lineNum ln rules issues')"

text \<open>The loop over the lines; \<open>i\<close> is the index of the first line of \<open>lns\<close>.\<close>

fun lines_loop ::
  "lint_rule list \<Rightarrow> string \<Rightarrow> string \<Rightarrow> nat \<Rightarrow> string list \<Rightarrow> lint_issue list \<Rightarrow> lint_issue list option"
where
  "lines_loop rules filePath ext i [] issues = Some issues"
| "lines_loop rules filePath ext i (ln # lns) issues =
     (case rules_loop filePath ext (i + 1) ln rules issues of
        None \<Rightarrow> None
      | Some issues' \<Rightarrow> lines_loop rules filePath ext (i + 1) lns issues')"

text \<open>\<^verbatim>\<open>lintFile\<close> with the rule list as a parameter, and \<^verbatim>\<open>lintFile\<close> itself, which reads
  the constant \<^verbatim>\<open>LINT_RULES\<close>.\<close>

definition lintFile_with :: "lint_rule list \<Rightarrow> string \<Rightarrow> string \<Rightarrow> lint_issue list option" where
  "lintFile_with rules filePath content =
     lines_loop rules filePath (getExtension filePath) 0 (split content (CHR 0x0A)) []"

definition lintFile :: "string \<Rightarrow> string \<Rightarrow> lint_issue list option" where
  "lintFile filePath content = lintFile_with LINT_RULES filePath content"

section \<open>calculateComplexity\<close>

text \<open>A keyword between two word boundaries, such as \<^verbatim>\<open>\bif\b\<close>.\<close>

definition keyword :: "string \<Rightarrow> regex" where
  "keyword k = Seq WordBoundary (Seq (str k) WordBoundary)"

text \<open>The literal \<^verbatim>\<open>/\bif\b|\bfor\b|\bwhile\b|\bswitch\b|\bcatch\b|\bcase\b/\<close>, without
  flags.\<close>

definition branch_pattern :: regexp where
  "branch_pattern =
     literal (Alt (keyword ''if'') (Alt (keyword ''for'') (Alt (keyword ''while'')
               (Alt (keyword ''switch'') (Alt (keyword ''catch'') (keyword ''case''))))))
             \<lparr>global = False, multiline = False\<rparr>"

fun complexity_loop :: "string list \<Rightarrow> nat \<Rightarrow> nat" where
  "complexity_loop [] complexity = complexity"
| "complexity_loop (ln # lns) complexity =
     complexity_loop lns (if test branch_pattern ln then complexity + 1 else complexity)"

definition calculateComplexity :: "string \<Rightarrow> nat" where
  "calculateComplexity content = complexity_loop (split content (CHR 0x0A)) 1"

section \<open>The file system and the outcome of a command\<close>

datatype js_error = ENOENT | EACCES | EISDIR | ENOTDIR | EIO | RequestError | RangeError

text \<open>
  What a path leads to: a regular file with its content, a regular file that cannot be
  read, a directory with its entries in the order \<^verbatim>\<open>readdirSync\<close> lists them, a directory
  that cannot be listed, something that is neither (with what reading it gives), or a path
  on which \<^verbatim>\<open>statSync\<close> fails (a vanished file, a permission error).
\<close>

datatype node =
    File string
  | UnreadableFile js_error
  | Directory "(string \<times> node) list"
  | UnreadableDirectory js_error
  | Special "js_error + string"
  | NoStat js_error

datatype stats = IsFile | IsDirectory | IsOther

definition isFile :: "stats \<Rightarrow> bool" where
  "isFile st = (st = IsFile)"

definition isDirectory :: "stats \<Rightarrow> bool" where
  "isDirectory st = (st = IsDirectory)"

fun statSync :: "node \<Rightarrow> js_error + stats" where
  "statSync (File content) = Inr IsFile"
| "statSync (UnreadableFile e) = Inr IsFile"
| "statSync (Directory items) = Inr IsDirectory"
| "statSync (UnreadableDirectory e) = Inr IsDirectory"
| "statSync (Special r) = Inr IsOther"
| "statSync (NoStat e) = Inl e"

fun readFileSync :: "node \<Rightarrow> js_error + string" where
  "readFileSync (File content) = Inr content"
| "readFileSync (UnreadableFile e) = Inl e"
| "readFileSync (Directory items) = Inl EISDIR"
| "readFileSync (UnreadableDirectory e) = Inl EISDIR"
| "readFileSync (Special r) = r"
| "readFileSync (NoStat e) = Inl e"

text \<open>
  The environment of a run: what each path of the command line leads to, \<^verbatim>\<open>path.join\<close>,
  what \<^verbatim>\<open>fs.writeFileSync(path, JSON.stringify(issues, null, 2))\<close> throws, if anything (an
  error of the file system, or the \<^verbatim>\<open>RangeError\<close> of a string that is too long), and the
  largest number of arguments that the engine accepts in one call: a call with more, such
  as \<^verbatim>\<open>push(...issues)\<close> on a longer array, throws a \<^verbatim>\<open>RangeError\<close>.
\<close>

record env =
  lookup :: "string \<Rightarrow> node"
  join :: "string \<Rightarrow> string \<Rightarrow> string"
  writeFileSync :: "string \<Rightarrow> lint_issue list \<Rightarrow> js_error option"
  max_arguments :: nat

text \<open>
  How a command ends: the process exits with a code after producing its output, an
  exception is thrown and nothing catches it, or the command never returns.
\<close>

datatype 'a outcome = Exit nat 'a | Throws js_error | Hangs

text \<open>The exit status of the process: the code of \<^verbatim>\<open>process.exit\<close> or 0 when the command
  returns, 1 when an exception is not caught, none when the command never returns.\<close>

fun exit_status :: "'a outcome \<Rightarrow> nat option" where
  "exit_status (Exit code out) = Some code"
| "exit_status (Throws e) = Some 1"
| "exit_status Hangs = None"

section \<open>The lint command\<close>

record options =
  recursive :: bool
  "output" :: "string option"

record lint_state =
  allIssues :: "lint_issue list"
  filesLinted :: nat

text \<open>
  The result of a loop body or of a loop: the state to go on with, or the way the command
  ends there.
\<close>

datatype step = Continue lint_state | Thrown js_error | Hung

text \<open>
  \<^verbatim>\<open>lintFile(path, content)\<close>, \<^verbatim>\<open>allIssues.push(...issues)\<close> and \<^verbatim>\<open>filesLinted++\<close>. The
  command hangs when \<^verbatim>\<open>lintFile\<close> does not return. The call of \<^verbatim>\<open>push\<close> passes every issue
  of the file as an argument of its own, and throws when there are too many of them.
\<close>

definition lint_one :: "env \<Rightarrow> lint_rule list \<Rightarrow> string \<Rightarrow> string \<Rightarrow> lint_state \<Rightarrow> step" where
  "lint_one ev rules filePath content st =
     (case lintFile_with rules filePath content of
        None \<Rightarrow> Hung
      | Some issues \<Rightarrow>
          if max_arguments ev < length issues then Thrown RangeError
          else Continue \<lparr>allIssues = allIssues st @ issues, filesLinted = filesLinted st + 1\<rparr>)"

text \<open>\<^verbatim>\<open>lintDir(dir)\<close> on the node that \<open>dir\<close> leads to, and its loop over the items.\<close>

fun lintDir :: "env \<Rightarrow> lint_rule list \<Rightarrow> string \<Rightarrow> node \<Rightarrow> lint_state \<Rightarrow> step"
and items_loop ::
  "env \<Rightarrow> lint_rule list \<Rightarrow> string \<Rightarrow> (string \<times> node) list \<Rightarrow> lint_state \<Rightarrow> step"
where
  "lintDir ev rules dir (Directory items) st = items_loop ev rules dir items st"
| "lintDir ev rules dir (UnreadableDirectory e) st = Thrown e"
| "lintDir ev rules dir (File content) st = Thrown ENOTDIR"
| "lintDir ev rules dir (UnreadableFile e) st = Thrown ENOTDIR"
| "lintDir ev rules dir (Special r) st = Thrown ENOTDIR"
| "lintDir ev rules dir (NoStat e) st = Thrown e"
| "items_loop ev rules dir [] st = Continue st"
| "items_loop ev rules dir ((item, nd) # items) st =
     (let fullPath = join ev dir item in
      case statSync nd of
        Inl e \<Rightarrow> Thrown e
      | Inr itemStat \<Rightarrow>
          if isDirectory itemStat then
            (case lintDir ev rules fullPath nd st of
               Continue st' \<Rightarrow> items_loop ev rules dir items st'
             | Thrown e \<Rightarrow> Thrown e
             | Hung \<Rightarrow> Hung)
          else if isFile itemStat then
            (case readFileSync nd of
               Inl e \<Rightarrow> Thrown e
             | Inr content \<Rightarrow>
                 (case lint_one ev rules fullPath content st of
                    Continue st' \<Rightarrow> items_loop ev rules dir items st'
                  | Thrown e \<Rightarrow> Thrown e
                  | Hung \<Rightarrow> Hung))
          else items_loop ev rules dir items st)"

text \<open>The loop \<^verbatim>\<open>for (const lintPath of paths)\<close>.\<close>

fun paths_loop :: "env \<Rightarrow> lint_rule list \<Rightarrow> options \<Rightarrow> string list \<Rightarrow> lint_state \<Rightarrow> step" where
  "paths_loop ev rules opts [] st = Continue st"
| "paths_loop ev rules opts (lintPath # paths) st =
     (case statSync (lookup ev lintPath) of
        Inl e \<Rightarrow> Thrown e
      | Inr stat \<Rightarrow>
          if isDirectory stat \<and> recursive opts then
            (case lintDir ev rules lintPath (lookup ev lintPath) st of
               Continue st' \<Rightarrow> paths_loop ev rules opts paths st'
             | Thrown e \<Rightarrow> Thrown e
             | Hung \<Rightarrow> Hung)
          else if isFile stat then
            (case readFileSync (lookup ev lintPath) of
               Inl e \<Rightarrow> Thrown e
             | Inr content \<Rightarrow>
                 (case lint_one ev rules lintPath content st of
                    Continue st' \<Rightarrow> paths_loop ev rules opts paths st'
                  | Thrown e \<Rightarrow> Thrown e
                  | Hung \<Rightarrow> Hung))
          else paths_loop ev rules opts paths st)"

text \<open>The counters \<^verbatim>\<open>bySeverity\<close> and the loop that fills them.\<close>

record by_severity =
  error :: nat
  warning :: nat
  info :: nat

fun severity_loop :: "lint_issue list \<Rightarrow> by_severity \<Rightarrow> by_severity" where
  "severity_loop [] bySeverity = bySeverity"
| "severity_loop (i # issues) bySeverity =
     severity_loop issues
       (case lint_issue.severity i of
          Error \<Rightarrow> bySeverity\<lparr>error := error bySeverity + 1\<rparr>
        | Warning \<Rightarrow> bySeverity\<lparr>warning := warning bySeverity + 1\<rparr>
        | Info \<Rightarrow> bySeverity\<lparr>info := info bySeverity + 1\<rparr>)"

text \<open>What a run of the lint command prints and writes: the number of files, the issues,
  the counters, and the issues saved to the output file when one is given
  (\<^verbatim>\<open>options.output\<close> is falsy when it is absent or the empty string).\<close>

record lint_report =
  files :: nat
  found :: "lint_issue list"
  summary :: by_severity
  saved :: "(string \<times> lint_issue list) option"

definition lint_action_with :: "lint_rule list \<Rightarrow> env \<Rightarrow> string list \<Rightarrow> options \<Rightarrow> lint_report outcome" where
  "lint_action_with rules ev paths opts =
     (case paths_loop ev rules opts paths \<lparr>allIssues = [], filesLinted = 0\<rparr> of
        Thrown e \<Rightarrow> Throws e
      | Hung \<Rightarrow> Hangs
      | Continue st \<Rightarrow>
          (let bySeverity = severity_loop (allIssues st) \<lparr>error = 0, warning = 0, info = 0\<rparr>;
               report = \<lparr>files = filesLinted st, found = allIssues st, summary = bySeverity,
                         saved = None\<rparr>
           in case output opts of
                None \<Rightarrow> Exit (if error bySeverity > 0 then 1 else 0) report
              | Some out \<Rightarrow>
                  if out = [] then Exit (if error bySeverity > 0 then 1 else 0) report
                  else (case writeFileSync ev out (allIssues st) of
                          Some e \<Rightarrow> Throws e
                        | None \<Rightarrow>
                            Exit (if error bySeverity > 0 then 1 else 0)
                              (report\<lparr>saved := Some (out, allIssues st)\<rparr>))))"

definition lint_action :: "env \<Rightarrow> string list \<Rightarrow> options \<Rightarrow> lint_report outcome" where
  "lint_action ev paths opts = lint_action_with LINT_RULES ev paths opts"

section \<open>The complexity command\<close>

datatype classification = Low | Moderate | High

text \<open>The three branches that choose the message printed after the score.\<close>

definition classify :: "nat \<Rightarrow> classification" where
  "classify complexity =
     (if complexity < 10 then Low else if complexity < 20 then Moderate else High)"

definition complexity_action :: "env \<Rightarrow> string \<Rightarrow> (nat \<times> classification) outcome" where
  "complexity_action ev filePath =
     (case readFileSync (lookup ev filePath) of
        Inl e \<Rightarrow> Throws e
      | Inr content \<Rightarrow>
          (let complexity = calculateComplexity content
           in Exit 0 (complexity, classify complexity)))"

section \<open>The pr command\<close>

text \<open>A file of the pull request, as the hosting service lists it; the patch can be
  missing.\<close>

record pr_file =
  filename :: string
  patch :: "string option"

text \<open>The loop over the files: \<^verbatim>\<open>!file.patch\<close> holds for a missing patch and for an
  empty one. \<open>None\<close> when \<^verbatim>\<open>lintFile\<close> does not return.\<close>

fun files_loop :: "lint_rule list \<Rightarrow> pr_file list \<Rightarrow> nat \<Rightarrow> nat option" where
  "files_loop rules [] totalIssues = Some totalIssues"
| "files_loop rules (f # fs) totalIssues =
     (case patch f of
        None \<Rightarrow> files_loop rules fs totalIssues
      | Some p \<Rightarrow>
          if p = [] then files_loop rules fs totalIssues
          else (case lintFile_with rules (filename f) p of
                  None \<Rightarrow> None
                | Some issues \<Rightarrow>
                    files_loop rules fs
                      (if length issues > 0 then totalIssues + length issues else totalIssues)))"

datatype pr_output = TokenRequired | FoundIssues nat

text \<open>\<open>token\<close> is \<^verbatim>\<open>process.env.GITHUB_TOKEN\<close>, \<open>listed\<close> is what \<^verbatim>\<open>pulls.listFiles\<close>
  answers.\<close>

definition pr_action_with ::
  "lint_rule list \<Rightarrow> string option \<Rightarrow> js_error + pr_file list \<Rightarrow> pr_output outcome" where
  "pr_action_with rules token listed =
     (if token = None \<or> token = Some [] then Exit 1 TokenRequired
      else case listed of
             Inl e \<Rightarrow> Throws e
           | Inr fs \<Rightarrow>
               (case files_loop rules fs 0 of
                  None \<Rightarrow> Hangs
                | Some totalIssues \<Rightarrow> Exit 0 (FoundIssues totalIssues)))"

definition pr_action :: "string option \<Rightarrow> js_error + pr_file list \<Rightarrow> pr_output outcome" where
  "pr_action token listed = pr_action_with LINT_RULES token listed"

section \<open>Notions used in the statements about lintFile\<close>

text \<open>The issue that \<^verbatim>\<open>lintFile\<close> pushes for a match of a rule that starts in the column
  \<open>col\<close> of the line \<open>lineNum\<close>.\<close>

definition issue_at :: "string \<Rightarrow> nat \<Rightarrow> lint_rule \<Rightarrow> nat \<Rightarrow> lint_issue" where
  "issue_at filePath lineNum rule col =
     \<lparr>file = filePath, line = lineNum, issue = lint_rule.issue rule,
      severity = lint_rule.severity rule, column = col\<rparr>"

text \<open>The position at which \<^verbatim>\<open>exec\<close> starts its search.\<close>

definition start :: "regexp \<Rightarrow> nat" where
  "start R = (if global (flags R) then lastIndex R else 0)"

text \<open>
  A state of the loop in which \<^verbatim>\<open>exec\<close> finds a match and leaves the object as it is:
  the pattern has no \<^verbatim>\<open>g\<close> flag, or the match is empty and starts at the cursor.
\<close>

definition stuck :: "regexp \<Rightarrow> string \<Rightarrow> bool" where
  "stuck R ln =
     (case search (source R) (multiline (flags R)) ln (start R) of
        None \<Rightarrow> False
      | Some (i, e) \<Rightarrow> \<not> global (flags R) \<or> (i = lastIndex R \<and> e = i))"

section \<open>Patterns that consume a character\<close>

text \<open>
  A syntactic test: \<open>nullable r\<close> is false only if every match of \<open>r\<close> consumes at least
  one character. Assertions and optional parts count as able to match the empty string.
\<close>

primrec nullable :: "regex \<Rightarrow> bool" where
  "nullable Empty = True"
| "nullable (Chr c) = False"
| "nullable AnyChar = False"
| "nullable Space = False"
| "nullable WordChar = False"
| "nullable WordBoundary = True"
| "nullable EndOfInput = True"
| "nullable (NotFollowedBy r) = True"
| "nullable (Group r) = nullable r"
| "nullable (Repeat r n) = (n = 0 \<or> nullable r)"
| "nullable (Seq r1 r2) = (nullable r1 \<and> nullable r2)"
| "nullable (Alt r1 r2) = (nullable r1 \<or> nullable r2)"

text \<open>A pattern none of whose matches, in any string, is empty.\<close>

definition never_empty :: "regexp \<Rightarrow> bool" where
  "never_empty R =
     (\<forall>s x. x \<le> length s \<longrightarrow> x \<notin> set (matcher (source R) (multiline (flags R)) s x))"

text \<open>A rule on which the loop of \<^verbatim>\<open>lintFile\<close> makes progress: its pattern has the
  \<^verbatim>\<open>g\<close> flag and never matches the empty string.\<close>

definition productive :: "lint_rule \<Rightarrow> bool" where
  "productive rule = (global (flags (pattern rule)) \<and> never_empty (pattern rule))"

text \<open>
  The issues of one rule on one line: one issue of the rule per column of \<open>cols\<close>, the
  columns strictly increasing and within the line, and none when the rule is skipped for
  the extension.
\<close>

definition rule_block :: "string \<Rightarrow> string \<Rightarrow> nat \<Rightarrow> string \<Rightarrow> lint_rule \<Rightarrow> lint_issue list \<Rightarrow> bool" where
  "rule_block filePath ext lineNum ln rule block =
     (\<exists>cols. block = map (issue_at filePath lineNum rule) cols \<and> sorted_wrt (<) cols \<and>
        (\<forall>c \<in> set cols. 1 \<le> c \<and> c \<le> length ln) \<and> (skipped rule ext \<longrightarrow> cols = []))"

text \<open>A rule with the cursor of its pattern object set back to 0.\<close>

definition reset_cursor :: "lint_rule \<Rightarrow> lint_rule" where
  "reset_cursor rule = rule\<lparr>pattern := (pattern rule)\<lparr>lastIndex := 0\<rparr>\<rparr>"

section \<open>Whole-word occurrences of the branching keywords\<close>

text \<open>
  The reading of the complexity score in the words of the specification: a line counts
  when one of the branching keywords occurs in it as a whole word, that is, at a position
  where it is neither preceded nor followed by a letter, a digit or an underscore.
\<close>

definition branch_keywords :: "string list" where
  "branch_keywords = [''if'', ''for'', ''while'', ''switch'', ''catch'', ''case'']"

definition whole_word_at :: "string \<Rightarrow> string \<Rightarrow> nat \<Rightarrow> bool" where
  "whole_word_at k ln x =
     (take (length k) (drop x ln) = k \<and>
      (x = 0 \<or> \<not> isWordChar (ln ! (x - 1))) \<and>
      (length ln \<le> x + length k \<or> \<not> isWordChar (ln ! (x + length k))))"

definition has_keyword :: "string \<Rightarrow> bool" where
  "has_keyword ln = list_ex (\<lambda>k. list_ex (whole_word_at k ln) [0..<length ln]) branch_keywords"

section \<open>Failing entries and the number of units\<close>

text \<open>
  An entry below a directory on which the traversal hits a failure of the file system:
  \<^verbatim>\<open>statSync\<close> fails on it, it is a regular file that cannot be read, a directory that
  cannot be listed, or a directory with such an entry somewhere below it.
\<close>

fun node_fails :: "node \<Rightarrow> bool" where
  "node_fails (File content) = False"
| "node_fails (UnreadableFile e) = True"
| "node_fails (Directory items) = list_ex (\<lambda>item. node_fails (snd item)) items"
| "node_fails (UnreadableDirectory e) = True"
| "node_fails (Special r) = False"
| "node_fails (NoStat e) = True"

text \<open>The same for a path of the command line: a directory is entered only with the
  recursive flag.\<close>

definition path_fails :: "bool \<Rightarrow> node \<Rightarrow> bool" where
  "path_fails rec nd =
     (case nd of
        File content \<Rightarrow> False
      | UnreadableFile e \<Rightarrow> True
      | Directory items \<Rightarrow> rec \<and> node_fails nd
      | UnreadableDirectory e \<Rightarrow> rec
      | Special r \<Rightarrow> False
      | NoStat e \<Rightarrow> True)"

text \<open>The readable regular files at and below an entry, and the units that a path of
  the command line stands for.\<close>

fun count_files :: "node \<Rightarrow> nat" where
  "count_files (File content) = 1"
| "count_files (UnreadableFile e) = 0"
| "count_files (Directory items) = sum_list (map (\<lambda>item. count_files (snd item)) items)"
| "count_files (UnreadableDirectory e) = 0"
| "count_files (Special r) = 0"
| "count_files (NoStat e) = 0"

definition path_units :: "bool \<Rightarrow> node \<Rightarrow> nat" where
  "path_units rec nd =
     (case nd of
        Directory items \<Rightarrow> if rec then count_files nd else 0
      | UnreadableDirectory e \<Rightarrow> 0
      | _ \<Rightarrow> count_files nd)"

text \<open>The number of issues of severity error.\<close>

definition error_count :: "lint_issue list \<Rightarrow> nat" where
  "error_count issues = length (filter (\<lambda>i. lint_issue.severity i = Error) issues)"

text \<open>A small file system for the examples: two JavaScript files, and nothing else.\<close>

definition sample_env :: env where
  "sample_env =
     \<lparr>lookup = (\<lambda>p. if p = ''a.js'' then File ''var x = 1;''
                    else if p = ''b.js'' then File ''let y = 2;''
                    else NoStat ENOENT),
      join = (\<lambda>dir item. dir @ ''/'' @ item),
      writeFileSync = (\<lambda>p issues. None),
      max_arguments = 125000\<rparr>"

text \<open>The var rule with the severity error, for an example of a run with an error.\<close>

definition strict_var_rule :: lint_rule where
  "strict_var_rule =
     \<lparr>lang = None,
      pattern = literal (Seq WordBoundary (Seq (str ''var'') (Seq (Repeat Space 1) (Repeat WordChar 1)))) flag_g,
      issue = ''No var'', severity = Error\<rparr>"

section \<open>Properties of the matcher\<close>

lemma set_if [simp]: "set (if b then xs else ys) = (if b then set xs else set ys)"
  by (cases b) simp_all

lemma split_not_Nil: "split s sep \<noteq> []"
  by (induction s) (simp_all add: Let_def)

lemma char_matcher_bounds:
  "y \<in> set (char_matcher p s x) \<Longrightarrow> x < y \<and> y \<le> length s"
  by (auto simp add: char_matcher_def split: if_splits)

lemma in_repeat_matcher_0:
  "y \<in> set (repeat_matcher m len 0 x) \<longleftrightarrow>
     y = x \<or> (\<exists>z \<in> set (m x). x < z \<and> z \<le> len \<and> y \<in> set (repeat_matcher m len 0 z))"
  by (subst repeat_matcher.simps) (auto split: if_splits)

lemma in_repeat_matcher_pos:
  "n \<noteq> 0 \<Longrightarrow> y \<in> set (repeat_matcher m len n x) \<longleftrightarrow>
     (\<exists>z \<in> set (m x). y \<in> set (repeat_matcher m len (n - 1) z))"
  by (subst repeat_matcher.simps) simp

lemma repeat_matcher_bounds:
  "(\<And>x y. x \<le> len \<Longrightarrow> y \<in> set (m x) \<Longrightarrow> x \<le> y \<and> y \<le> len) \<Longrightarrow>
   x \<le> len \<Longrightarrow> y \<in> set (repeat_matcher m len n x) \<Longrightarrow> x \<le> y \<and> y \<le> len"
proof (induction m len n x arbitrary: y rule: repeat_matcher.induct)
  case (1 m len n x)
  note m' = "1.prems"(1)
  show ?case
  proof (cases "n = 0")
    case True
    with "1.prems"(3)
    consider "y = x" | z where "z \<in> set (m x)" "x < z" "z \<le> len" "y \<in> set (repeat_matcher m len 0 z)"
      by (auto simp: in_repeat_matcher_0 [of y m len x])
    then show ?thesis
    proof cases
      case 1
      then show ?thesis using \<open>x \<le> len\<close> by simp
    next
      case 2
      from True have n0: "\<not> n \<noteq> 0" by simp
      from 2 have zb: "x < z \<and> z \<le> len" by simp
      from 2(4) True have "y \<in> set (repeat_matcher m len 0 z)" by simp
      from "1.IH"(2) [OF n0 2(1) zb m' 2(3) this] have "z \<le> y \<and> y \<le> len" by simp
      with 2 show ?thesis by simp
    qed
  next
    case False
    with "1.prems"(3)
    obtain z where z: "z \<in> set (m x)" "y \<in> set (repeat_matcher m len (n - 1) z)"
      by (auto simp: in_repeat_matcher_pos)
    from m' [OF \<open>x \<le> len\<close> z(1)] have xz: "x \<le> z" "z \<le> len" by simp_all
    from "1.IH"(1) [OF False z(1) m' xz(2) z(2)] have "z \<le> y \<and> y \<le> len" by simp
    with xz show ?thesis by simp
  qed
qed

lemma matcher_bounds:
  "x \<le> length s \<Longrightarrow> y \<in> set (matcher r ml s x) \<Longrightarrow> x \<le> y \<and> y \<le> length s"
proof (induction r arbitrary: x y)
  case (NotFollowedBy r)
  from NotFollowedBy.prems show ?case by (simp split: if_splits)
next
  case (Group r)
  from Group.prems(2) have "y \<in> set (matcher r ml s x)" by simp
  with Group.prems(1) show ?case by (rule Group.IH)
next
  case (Repeat r n)
  show ?case
  proof (rule repeat_matcher_bounds)
    show "\<And>x y. x \<le> length s \<Longrightarrow> y \<in> set (matcher r ml s x) \<Longrightarrow> x \<le> y \<and> y \<le> length s"
      by (rule Repeat.IH)
    show "x \<le> length s" by fact
    show "y \<in> set (repeat_matcher (matcher r ml s) (length s) n x)"
      using Repeat.prems(2) by simp
  qed
next
  case (Seq r1 r2)
  from Seq.prems(2) obtain z where z: "z \<in> set (matcher r1 ml s x)" "y \<in> set (matcher r2 ml s z)"
    by auto
  from Seq.IH(1) [OF Seq.prems(1) z(1)] have xz: "x \<le> z" "z \<le> length s" by simp_all
  from Seq.IH(2) [OF xz(2) z(2)] xz(1) show ?case by simp
next
  case (Alt r1 r2)
  from Alt.prems(2) consider "y \<in> set (matcher r1 ml s x)" | "y \<in> set (matcher r2 ml s x)"
    by auto
  then show ?case
  proof cases
    case 1
    with Alt.prems(1) show ?thesis by (rule Alt.IH(1))
  next
    case 2
    with Alt.prems(1) show ?thesis by (rule Alt.IH(2))
  qed
qed (auto dest: char_matcher_bounds split: if_splits)

lemma matcher_progress:
  "\<not> nullable r \<Longrightarrow> x \<le> length s \<Longrightarrow> y \<in> set (matcher r ml s x) \<Longrightarrow> x < y"
proof (induction r arbitrary: x y)
  case (Group r)
  from Group.prems have "\<not> nullable r" "y \<in> set (matcher r ml s x)" by simp_all
  from Group.IH [OF this(1) Group.prems(2) this(2)] show ?case .
next
  case (Repeat r n)
  then have n: "n \<noteq> 0" and r: "\<not> nullable r" by simp_all
  from Repeat.prems(3) n obtain z where z: "z \<in> set (matcher r ml s x)"
      "y \<in> set (repeat_matcher (matcher r ml s) (length s) (n - 1) z)"
    by (auto simp: in_repeat_matcher_pos)
  from Repeat.IH [OF r Repeat.prems(2) z(1)] have "x < z" .
  moreover from matcher_bounds [OF Repeat.prems(2) z(1)] have zl: "z \<le> length s" by simp
  have "z \<le> y \<and> y \<le> length s"
  proof (rule repeat_matcher_bounds)
    show "\<And>x y. x \<le> length s \<Longrightarrow> y \<in> set (matcher r ml s x) \<Longrightarrow> x \<le> y \<and> y \<le> length s"
      by (rule matcher_bounds)
    show "z \<le> length s" by (rule zl)
    show "y \<in> set (repeat_matcher (matcher r ml s) (length s) (n - 1) z)" by (rule z(2))
  qed
  ultimately show ?case by simp
next
  case (Seq r1 r2)
  from Seq.prems(3) obtain z where z: "z \<in> set (matcher r1 ml s x)" "y \<in> set (matcher r2 ml s z)"
    by auto
  from matcher_bounds [OF Seq.prems(2) z(1)] have xz: "x \<le> z" "z \<le> length s" by simp_all
  from matcher_bounds [OF xz(2) z(2)] have zy: "z \<le> y" by simp
  from Seq.prems(1) consider "\<not> nullable r1" | "\<not> nullable r2" by auto
  then show ?case
  proof cases
    case 1
    from Seq.IH(1) [OF 1 Seq.prems(2) z(1)] zy show ?thesis by simp
  next
    case 2
    from Seq.IH(2) [OF 2 xz(2) z(2)] xz show ?thesis by simp
  qed
next
  case (Alt r1 r2)
  from Alt.prems(1) have n: "\<not> nullable r1" "\<not> nullable r2" by simp_all
  from Alt.prems(3) consider "y \<in> set (matcher r1 ml s x)" | "y \<in> set (matcher r2 ml s x)"
    by auto
  then show ?case
  proof cases
    case 1
    from Alt.IH(1) [OF n(1) Alt.prems(2) 1] show ?thesis .
  next
    case 2
    from Alt.IH(2) [OF n(2) Alt.prems(2) 2] show ?thesis .
  qed
qed (auto dest: char_matcher_bounds)

lemma search_Some:
  "search r ml s i = Some (j, e) \<Longrightarrow>
     i \<le> j \<and> j \<le> length s \<and> matcher r ml s j \<noteq> [] \<and> e = hd (matcher r ml s j) \<and>
     (\<forall>k. i \<le> k \<and> k < j \<longrightarrow> matcher r ml s k = [])"
proof (induction r ml s i rule: search.induct)
  case (1 r ml s i)
  show ?case
  proof (cases "length s < i")
    case True
    with "1.prems" show ?thesis by (subst (asm) search.simps) simp
  next
    case False
    show ?thesis
    proof (cases "matcher r ml s i")
      case Nil
      with False "1.prems" have "search r ml s (Suc i) = Some (j, e)"
        by (subst (asm) search.simps) simp
      from "1.IH" [OF False Nil this]
      have ih: "Suc i \<le> j" "j \<le> length s" "matcher r ml s j \<noteq> []" "e = hd (matcher r ml s j)"
        "\<And>k. Suc i \<le> k \<Longrightarrow> k < j \<Longrightarrow> matcher r ml s k = []"
        by simp_all
      have "matcher r ml s k = []" if "i \<le> k" "k < j" for k
      proof (cases "k = i")
        case True
        with Nil show ?thesis by simp
      next
        case False
        with that have "Suc i \<le> k" by simp
        then show ?thesis using that(2) by (rule ih(5))
      qed
      with ih(1-4) show ?thesis by simp
    next
      case (Cons a as)
      with False "1.prems" have "j = i" "e = a"
        by (subst (asm) search.simps, simp)+
      with Cons False show ?thesis by auto
    qed
  qed
qed

lemma search_None:
  "search r ml s i = None \<Longrightarrow> i \<le> k \<Longrightarrow> k \<le> length s \<Longrightarrow> matcher r ml s k = []"
proof (induction r ml s i rule: search.induct)
  case (1 r ml s i)
  from "1.prems" have False: "\<not> length s < i" by simp
  show ?case
  proof (cases "matcher r ml s i")
    case Nil
    with False "1.prems"(1) have n: "search r ml s (Suc i) = None"
      by (subst (asm) search.simps) simp
    show ?thesis
    proof (cases "k = i")
      case True
      with Nil show ?thesis by simp
    next
      case ne: False
      with "1.prems"(2) have "Suc i \<le> k" by simp
      from "1.IH" [OF False Nil n this "1.prems"(3)] show ?thesis .
    qed
  next
    case (Cons a as)
    with False "1.prems"(1) show ?thesis by (subst (asm) search.simps) simp
  qed
qed

lemma search_here:
  "i \<le> length s \<Longrightarrow> matcher r ml s i = e # es \<Longrightarrow> search r ml s i = Some (i, e)"
  by (subst search.simps) simp

lemma search_bounds:
  assumes "search r ml s i = Some (j, e)"
  shows "i \<le> j \<and> j \<le> e \<and> e \<le> length s \<and> search r ml s j = Some (j, e)"
proof -
  from search_Some [OF assms]
  have a: "i \<le> j" "j \<le> length s" "matcher r ml s j \<noteq> []" "e = hd (matcher r ml s j)"
    by simp_all
  then obtain es where m: "matcher r ml s j = e # es" by (cases "matcher r ml s j") simp_all
  then have "e \<in> set (matcher r ml s j)" by simp
  from matcher_bounds [OF a(2) this] search_here [OF a(2) m] a(1) show ?thesis by simp
qed

lemma exec_None:
  "fst (exec R ln) = None \<longleftrightarrow> search (source R) (multiline (flags R)) ln (start R) = None"
  by (auto simp: exec_def start_def Let_def split: option.splits prod.splits)

lemma exec_Some:
  "exec R ln = (Some i, R') \<longleftrightarrow>
     (\<exists>e. search (source R) (multiline (flags R)) ln (start R) = Some (i, e) \<and>
          R' = (if global (flags R) then R\<lparr>lastIndex := e\<rparr> else R))"
  by (auto simp: exec_def start_def Let_def split: option.splits prod.splits)

lemma stuck_step:
  assumes "search (source R) (multiline (flags R)) ln (start R) = Some (i, e)"
    and "\<not> stuck (if global (flags R) then R\<lparr>lastIndex := e\<rparr> else R) ln"
  shows "global (flags R) \<and> i < e \<and> start R \<le> i \<and> e \<le> length ln"
proof -
  from search_bounds [OF assms(1)]
  have b: "start R \<le> i" "i \<le> e" "e \<le> length ln"
    "search (source R) (multiline (flags R)) ln i = Some (i, e)" by simp_all
  show ?thesis
  proof (cases "global (flags R)")
    case False
    with assms show ?thesis by (simp add: stuck_def start_def)
  next
    case True
    have "e \<noteq> i"
    proof
      assume "e = i"
      with True b(4) have "stuck (R\<lparr>lastIndex := e\<rparr>) ln"
        by (simp add: stuck_def start_def)
      with True assms(2) show False by simp
    qed
    with b True show ?thesis by simp
  qed
qed

lemma exec_loop_Some:
  assumes "exec_loop filePath lineNum rule R ln issues = Some res"
  shows "\<not> stuck R ln \<and>
     (\<exists>cols. res = issues @ map (issue_at filePath lineNum rule) cols \<and> sorted_wrt (<) cols \<and>
        (\<forall>c \<in> set cols. start R < c \<and> c \<le> length ln))"
proof (rule exec_loop.raw_induct [where P = "\<lambda>filePath lineNum rule R ln issues res.
     \<not> stuck R ln \<and>
     (\<exists>cols. res = issues @ map (issue_at filePath lineNum rule) cols \<and> sorted_wrt (<) cols \<and>
        (\<forall>c \<in> set cols. start R < c \<and> c \<le> length ln))", OF _ assms])
  fix loop filePath lineNum rule R ln issues res
  assume IH: "\<And>filePath lineNum rule R ln issues res.
     loop filePath lineNum rule R ln issues = Some res \<Longrightarrow>
     \<not> stuck R ln \<and>
     (\<exists>cols. res = issues @ map (issue_at filePath lineNum rule) cols \<and> sorted_wrt (<) cols \<and>
        (\<forall>c \<in> set cols. start R < c \<and> c \<le> length ln))"
  assume body: "(case exec R ln of
        (None, regex') \<Rightarrow> Some issues
      | (Some match_index, regex') \<Rightarrow>
          loop filePath lineNum rule regex' ln
            (issues @ [\<lparr>file = filePath, line = lineNum, issue = lint_rule.issue rule,
                        severity = lint_rule.severity rule, column = match_index + 1\<rparr>])) = Some res"
  show "\<not> stuck R ln \<and>
     (\<exists>cols. res = issues @ map (issue_at filePath lineNum rule) cols \<and> sorted_wrt (<) cols \<and>
        (\<forall>c \<in> set cols. start R < c \<and> c \<le> length ln))"
  proof (cases "search (source R) (multiline (flags R)) ln (start R)")
    case None
    then have "fst (exec R ln) = None" by (simp add: exec_None)
    with body have "res = issues" by (auto split: prod.splits option.splits)
    with None show ?thesis by (simp add: stuck_def)
  next
    case (Some a)
    obtain i e where a: "a = (i, e)" by (cases a)
    define R' where "R' = (if global (flags R) then R\<lparr>lastIndex := e\<rparr> else R)"
    from Some a have ex: "exec R ln = (Some i, R')"
      by (simp add: exec_Some R'_def)
    with body have "loop filePath lineNum rule R' ln
        (issues @ [\<lparr>file = filePath, line = lineNum, issue = lint_rule.issue rule,
                    severity = lint_rule.severity rule, column = i + 1\<rparr>]) = Some res"
      by simp
    from IH [OF this] obtain cols where
      ns: "\<not> stuck R' ln" and
      res: "res = (issues @ [issue_at filePath lineNum rule (i + 1)]) @ map (issue_at filePath lineNum rule) cols" and
      sorted: "sorted_wrt (<) cols" and
      cols: "\<forall>c \<in> set cols. start R' < c \<and> c \<le> length ln"
      by (auto simp: issue_at_def)
    from stuck_step [OF Some [unfolded a] ns [unfolded R'_def]]
    have g: "global (flags R)" and ie: "i < e" "start R \<le> i" "e \<le> length ln" by simp_all
    from g have sR': "start R' = e" by (simp add: R'_def start_def)
    have "\<not> stuck R ln"
    proof
      assume "stuck R ln"
      with Some a g ie show False by (simp add: stuck_def start_def)
    qed
    moreover have "res = issues @ map (issue_at filePath lineNum rule) ((i + 1) # cols)"
      using res by simp
    moreover have "sorted_wrt (<) ((i + 1) # cols)"
      using sorted cols sR' ie by auto
    moreover have "\<forall>c \<in> set ((i + 1) # cols). start R < c \<and> c \<le> length ln"
      using cols sR' ie by auto
    ultimately show ?thesis by blast
  qed
qed

lemma not_nullable_never_empty:
  "\<not> nullable (source R) \<Longrightarrow> never_empty R"
  unfolding never_empty_def using matcher_progress by blast

lemma never_empty_progress:
  assumes "never_empty R" "x \<le> length s"
    "y \<in> set (matcher (source R) (multiline (flags R)) s x)"
  shows "x < y"
proof -
  from matcher_bounds [OF assms(2,3)] have "x \<le> y" by simp
  moreover from assms have "y \<noteq> x" unfolding never_empty_def by blast
  ultimately show ?thesis by simp
qed

lemma exec_loop_total:
  assumes g: "global (flags R)" and ne: "never_empty R"
  shows "\<exists>res. exec_loop filePath lineNum rule R ln issues = Some res"
  using assms
proof (induction "Suc (length ln) - lastIndex R" arbitrary: R issues rule: less_induct)
  case less
  show ?case
  proof (cases "search (source R) (multiline (flags R)) ln (start R)")
    case None
    then have "fst (exec R ln) = None" by (simp add: exec_None)
    then show ?thesis
      by (subst exec_loop.simps) (auto split: prod.splits option.splits)
  next
    case (Some a)
    obtain i e where a: "a = (i, e)" by (cases a)
    define R' where "R' = R\<lparr>lastIndex := e\<rparr>"
    from Some a less.prems(1) have ex: "exec R ln = (Some i, R')"
      by (simp add: exec_Some R'_def)
    from search_Some [OF Some [unfolded a]] have i: "start R \<le> i" "i \<le> length ln"
      "matcher (source R) (multiline (flags R)) ln i \<noteq> []"
      "e = hd (matcher (source R) (multiline (flags R)) ln i)" by simp_all
    then have "e \<in> set (matcher (source R) (multiline (flags R)) ln i)" by simp
    from never_empty_progress [OF less.prems(2) i(2) this] matcher_bounds [OF i(2) this]
    have "i < e" "e \<le> length ln" by simp_all
    with i(1) less.prems(1) have "Suc (length ln) - lastIndex R' < Suc (length ln) - lastIndex R"
      by (simp add: R'_def start_def)
    moreover have "global (flags R')" "never_empty R'"
      using less.prems by (simp_all add: R'_def never_empty_def)
    ultimately have "\<exists>res. exec_loop filePath lineNum rule R' ln
        (issues @ [\<lparr>file = filePath, line = lineNum, issue = lint_rule.issue rule,
                    severity = lint_rule.severity rule, column = i + 1\<rparr>]) = Some res"
      by (rule less.hyps)
    with ex show ?thesis by (subst exec_loop.simps) simp
  qed
qed

lemma exec_loop_stuck:
  "stuck R ln \<Longrightarrow> exec_loop filePath lineNum rule R ln issues = None"
  using exec_loop_Some [of filePath lineNum rule R ln issues]
  by (cases "exec_loop filePath lineNum rule R ln issues") auto

lemma new_RegExp_simps [simp]:
  "source (new_RegExp src fl) = src" "flags (new_RegExp src fl) = fl"
  "lastIndex (new_RegExp src fl) = 0" "start (new_RegExp src fl) = 0"
  by (simp_all add: new_RegExp_def start_def)

lemma never_empty_new_RegExp:
  "never_empty (new_RegExp (source R) (flags R)) = never_empty R"
  by (simp add: never_empty_def)

lemma rules_loop_total:
  "\<forall>rule \<in> set rules. productive rule \<Longrightarrow>
   \<exists>res. rules_loop filePath ext lineNum ln rules issues = Some res"
proof (induction rules arbitrary: issues)
  case Nil
  show ?case by simp
next
  case (Cons rule rules)
  then have p: "productive rule" and rest: "\<forall>rule \<in> set rules. productive rule" by simp_all
  from p obtain res where
    "exec_loop filePath lineNum rule (new_RegExp (source (pattern rule)) (flags (pattern rule))) ln issues
       = Some res"
    using exec_loop_total [of "new_RegExp (source (pattern rule)) (flags (pattern rule))"
        filePath lineNum rule ln issues]
    by (auto simp: productive_def never_empty_new_RegExp)
  with Cons.IH [OF rest] show ?case by simp
qed

lemma lines_loop_total:
  "\<forall>rule \<in> set rules. productive rule \<Longrightarrow>
   \<exists>res. lines_loop rules filePath ext i lns issues = Some res"
proof (induction lns arbitrary: i issues)
  case Nil
  show ?case by simp
next
  case (Cons ln lns)
  from rules_loop_total [OF Cons.prems] obtain res where
    "rules_loop filePath ext (i + 1) ln rules issues = Some res" by blast
  with Cons.IH [OF Cons.prems] show ?case by simp
qed

lemma lintFile_with_total:
  "\<forall>rule \<in> set rules. productive rule \<Longrightarrow>
   \<exists>issues. lintFile_with rules filePath content = Some issues"
  unfolding lintFile_with_def by (rule lines_loop_total)

lemma LINT_RULES_productive: "\<forall>rule \<in> set LINT_RULES. productive rule"
  by (simp add: LINT_RULES_def productive_def not_nullable_never_empty literal_def flag_g_def flags_gm_def)

lemma lintFile_total: "\<exists>issues. lintFile filePath content = Some issues"
  unfolding lintFile_def by (rule lintFile_with_total [OF LINT_RULES_productive])

lemma rules_loop_Some:
  "rules_loop filePath ext lineNum ln rules issues = Some res \<Longrightarrow>
   \<exists>blocks. res = issues @ concat blocks \<and> list_all2 (rule_block filePath ext lineNum ln) rules blocks"
proof (induction rules arbitrary: issues)
  case Nil
  then show ?case by simp
next
  case (Cons rule rules)
  show ?case
  proof (cases "skipped rule ext")
    case True
    with Cons.prems have "rules_loop filePath ext lineNum ln rules issues = Some res" by simp
    from Cons.IH [OF this] obtain blocks where
      b: "res = issues @ concat blocks" "list_all2 (rule_block filePath ext lineNum ln) rules blocks"
      by blast
    have "rule_block filePath ext lineNum ln rule []" by (simp add: rule_block_def)
    with b have "res = issues @ concat ([] # blocks) \<and>
        list_all2 (rule_block filePath ext lineNum ln) (rule # rules) ([] # blocks)" by simp
    then show ?thesis by blast
  next
    case False
    with Cons.prems obtain mid where
      mid: "exec_loop filePath lineNum rule (new_RegExp (source (pattern rule)) (flags (pattern rule)))
              ln issues = Some mid"
      and rest: "rules_loop filePath ext lineNum ln rules mid = Some res"
      by (auto split: option.splits)
    from exec_loop_Some [OF mid] obtain cols where
      c: "mid = issues @ map (issue_at filePath lineNum rule) cols" "sorted_wrt (<) cols"
         "\<forall>c \<in> set cols. 0 < c \<and> c \<le> length ln"
      by auto
    from Cons.IH [OF rest] obtain blocks where
      b: "res = mid @ concat blocks" "list_all2 (rule_block filePath ext lineNum ln) rules blocks"
      by blast
    from c False have "rule_block filePath ext lineNum ln rule (map (issue_at filePath lineNum rule) cols)"
      unfolding rule_block_def by (intro exI [of _ cols]) auto
    with b c(1) have "res = issues @ concat (map (issue_at filePath lineNum rule) cols # blocks) \<and>
        list_all2 (rule_block filePath ext lineNum ln) (rule # rules)
          (map (issue_at filePath lineNum rule) cols # blocks)" by simp
    then show ?thesis by blast
  qed
qed

lemma rule_block_issue:
  "rule_block filePath ext lineNum ln rule block \<Longrightarrow> x \<in> set block \<Longrightarrow>
   x = issue_at filePath lineNum rule (column x) \<and> line x = lineNum \<and> 1 \<le> column x \<and>
   column x \<le> length ln \<and> \<not> skipped rule ext"
  by (auto simp: rule_block_def issue_at_def)

lemma line_blocks_issue:
  assumes "list_all2 (rule_block filePath ext lineNum ln) rules blocks" "x \<in> set (concat blocks)"
  shows "line x = lineNum \<and> 1 \<le> column x \<and> column x \<le> length ln \<and>
     (\<exists>rule \<in> set rules. \<not> skipped rule ext \<and> x = issue_at filePath lineNum rule (column x))"
proof -
  from assms(2) obtain block where b: "block \<in> set blocks" "x \<in> set block" by auto
  then obtain j where j: "j < length blocks" "blocks ! j = block" by (auto simp: in_set_conv_nth)
  with assms(1) have "rule_block filePath ext lineNum ln (rules ! j) block" "j < length rules"
    by (auto simp: list_all2_conv_all_nth)
  with rule_block_issue [OF this(1) b(2)] show ?thesis by (auto intro: nth_mem)
qed

lemma lines_loop_Some:
  "lines_loop rules filePath ext i lns issues = Some res \<Longrightarrow>
   \<exists>bss. res = issues @ concat (map concat bss) \<and> length bss = length lns \<and>
     (\<forall>k < length lns. list_all2 (rule_block filePath ext (i + k + 1) (lns ! k)) rules (bss ! k))"
proof (induction lns arbitrary: i issues)
  case Nil
  then show ?case by simp
next
  case (Cons ln lns)
  from Cons.prems obtain mid where
    mid: "rules_loop filePath ext (i + 1) ln rules issues = Some mid"
    and rest: "lines_loop rules filePath ext (i + 1) lns mid = Some res"
    by (auto split: option.splits)
  from rules_loop_Some [OF mid] obtain blocks where
    b: "mid = issues @ concat blocks" "list_all2 (rule_block filePath ext (i + 1) ln) rules blocks"
    by blast
  from Cons.IH [OF rest] obtain bss where
    bss: "res = mid @ concat (map concat bss)" "length bss = length lns"
      "\<forall>k < length lns. list_all2 (rule_block filePath ext (i + 1 + k + 1) (lns ! k)) rules (bss ! k)"
    by blast
  have "\<forall>k < length (ln # lns).
      list_all2 (rule_block filePath ext (i + k + 1) ((ln # lns) ! k)) rules ((blocks # bss) ! k)"
  proof (intro allI impI)
    fix k assume "k < length (ln # lns)"
    then show "list_all2 (rule_block filePath ext (i + k + 1) ((ln # lns) ! k)) rules ((blocks # bss) ! k)"
      using b(2) bss(3) by (cases k) auto
  qed
  with b(1) bss(1,2) have "res = issues @ concat (map concat (blocks # bss)) \<and>
     length (blocks # bss) = length (ln # lns) \<and>
     (\<forall>k < length (ln # lns).
      list_all2 (rule_block filePath ext (i + k + 1) ((ln # lns) ! k)) rules ((blocks # bss) ! k))"
    by simp
  then show ?case by blast
qed

lemma sorted_constant: "\<forall>x \<in> set xs. f x = (c::nat) \<Longrightarrow> sorted (map f xs)"
  by (induction xs) auto

lemma blocks_positions:
  assumes "length bss = length lns"
    "\<forall>k < length lns. list_all2 (rule_block filePath ext (i + k + 1) (lns ! k)) rules (bss ! k)"
    "x \<in> set (concat (map concat bss))"
  shows "\<exists>k < length lns. line x = i + k + 1 \<and> 1 \<le> column x \<and> column x \<le> length (lns ! k) \<and>
     (\<exists>rule \<in> set rules. \<not> skipped rule ext \<and> x = issue_at filePath (i + k + 1) rule (column x))"
proof -
  from assms(3) obtain blocks where b: "blocks \<in> set bss" "x \<in> set (concat blocks)" by auto
  then obtain k where k: "k < length bss" "bss ! k = blocks" by (auto simp: in_set_conv_nth)
  with assms(1,2) have "list_all2 (rule_block filePath ext (i + k + 1) (lns ! k)) rules blocks"
    by auto
  from line_blocks_issue [OF this b(2)] k(1) assms(1) show ?thesis by auto
qed

lemma blocks_sorted:
  "length bss = length lns \<Longrightarrow>
   \<forall>k < length lns. list_all2 (rule_block filePath ext (i + k + 1) (lns ! k)) rules (bss ! k) \<Longrightarrow>
   sorted (map line (concat (map concat bss)))"
proof (induction bss arbitrary: i lns)
  case Nil
  show ?case by simp
next
  case (Cons blocks bss)
  then obtain ln lns' where lns: "lns = ln # lns'" by (cases lns) auto
  from Cons.prems lns have len: "length bss = length lns'" by simp
  have rest: "\<forall>k < length lns'.
      list_all2 (rule_block filePath ext (Suc i + k + 1) (lns' ! k)) rules (bss ! k)"
  proof (intro allI impI)
    fix k assume "k < length lns'"
    with Cons.prems(2) [rule_format, of "Suc k"] lns
    show "list_all2 (rule_block filePath ext (Suc i + k + 1) (lns' ! k)) rules (bss ! k)" by simp
  qed
  from Cons.prems(2) [rule_format, of 0] lns
  have first: "list_all2 (rule_block filePath ext (i + 1) ln) rules blocks" by simp
  have a: "\<forall>x \<in> set (concat blocks). line x = i + 1"
    using line_blocks_issue [OF first] by blast
  have b: "\<forall>y \<in> set (concat (map concat bss)). i + 1 < line y"
    using blocks_positions [OF len rest] by fastforce
  have "\<forall>x \<in> set (concat blocks). \<forall>y \<in> set (concat (map concat bss)). line x \<le> line y"
  proof (intro ballI)
    fix x y assume "x \<in> set (concat blocks)" "y \<in> set (concat (map concat bss))"
    with a b have "line x = i + 1" "i + 1 < line y" by blast+
    then show "line x \<le> line y" by simp
  qed
  with Cons.IH [OF len rest] sorted_constant [OF a] show ?case
    by (simp add: sorted_append)
qed

lemma rules_loop_skip:
  "skipped rule ext \<Longrightarrow>
   rules_loop filePath ext lineNum ln (rules1 @ rule # rules2) issues =
   rules_loop filePath ext lineNum ln (rules1 @ rules2) issues"
  by (induction rules1 arbitrary: issues) (auto split: option.splits)

lemma lines_loop_skip:
  "skipped rule ext \<Longrightarrow>
   lines_loop (rules1 @ rule # rules2) filePath ext i lns issues =
   lines_loop (rules1 @ rules2) filePath ext i lns issues"
  by (induction lns arbitrary: i issues) (auto simp: rules_loop_skip split: option.splits)

lemma lintFile_with_issue:
  assumes "lintFile_with rules filePath content = Some issues" "x \<in> set issues"
  shows "\<exists>k < length (split content (CHR 0x0A)). \<exists>rule \<in> set rules.
     \<not> skipped rule (getExtension filePath) \<and>
     x = issue_at filePath (k + 1) rule (column x) \<and> 1 \<le> column x \<and>
     column x \<le> length (split content (CHR 0x0A) ! k)"
proof -
  from lines_loop_Some [OF assms(1) [unfolded lintFile_with_def]] obtain bss where
    bss: "issues = concat (map concat bss)" "length bss = length (split content (CHR 0x0A))"
    "\<forall>k < length (split content (CHR 0x0A)).
       list_all2 (rule_block filePath (getExtension filePath) (0 + k + 1)
         (split content (CHR 0x0A) ! k)) rules (bss ! k)"
    by auto
  from blocks_positions [OF bss(2,3)] assms(2) bss(1) show ?thesis by fastforce
qed

lemma exec_loop_same_message:
  assumes "exec_loop filePath lineNum rule R ln issues = Some res"
    and "lint_rule.issue rule' = lint_rule.issue rule"
    and "lint_rule.severity rule' = lint_rule.severity rule"
  shows "exec_loop filePath lineNum rule' R ln issues = Some res"
proof -
  have "\<forall>rule'. lint_rule.issue rule' = lint_rule.issue rule \<and>
          lint_rule.severity rule' = lint_rule.severity rule \<longrightarrow>
          exec_loop filePath lineNum rule' R ln issues = Some res"
  proof (rule exec_loop.raw_induct [where P = "\<lambda>filePath lineNum rule R ln issues res.
      \<forall>rule'. lint_rule.issue rule' = lint_rule.issue rule \<and>
          lint_rule.severity rule' = lint_rule.severity rule \<longrightarrow>
          exec_loop filePath lineNum rule' R ln issues = Some res", OF _ assms(1)])
    fix loop filePath lineNum rule R ln issues res
    assume IH: "\<And>filePath lineNum rule R ln issues res.
       loop filePath lineNum rule R ln issues = Some res \<Longrightarrow>
       \<forall>rule'. lint_rule.issue rule' = lint_rule.issue rule \<and>
          lint_rule.severity rule' = lint_rule.severity rule \<longrightarrow>
          exec_loop filePath lineNum rule' R ln issues = Some res"
    assume body: "(case exec R ln of
        (None, regex') \<Rightarrow> Some issues
      | (Some match_index, regex') \<Rightarrow>
          loop filePath lineNum rule regex' ln
            (issues @ [\<lparr>file = filePath, line = lineNum, issue = lint_rule.issue rule,
                        severity = lint_rule.severity rule, column = match_index + 1\<rparr>])) = Some res"
    show "\<forall>rule'. lint_rule.issue rule' = lint_rule.issue rule \<and>
          lint_rule.severity rule' = lint_rule.severity rule \<longrightarrow>
          exec_loop filePath lineNum rule' R ln issues = Some res"
    proof (intro allI impI)
      fix rule' :: lint_rule
      assume eq: "lint_rule.issue rule' = lint_rule.issue rule \<and>
          lint_rule.severity rule' = lint_rule.severity rule"
      obtain m R' where ex: "exec R ln = (m, R')" by (cases "exec R ln")
      show "exec_loop filePath lineNum rule' R ln issues = Some res"
      proof (cases m)
        case None
        with body ex show ?thesis by (subst exec_loop.simps) simp
      next
        case (Some i)
        with body ex have "loop filePath lineNum rule R' ln
            (issues @ [\<lparr>file = filePath, line = lineNum, issue = lint_rule.issue rule,
                        severity = lint_rule.severity rule, column = i + 1\<rparr>]) = Some res"
          by simp
        from IH [OF this, rule_format, OF eq] Some ex eq show ?thesis
          by (subst exec_loop.simps) simp
      qed
    qed
  qed
  with assms(2,3) show ?thesis by blast
qed

lemma exec_loop_message_only:
  assumes "lint_rule.issue rule' = lint_rule.issue rule"
    and "lint_rule.severity rule' = lint_rule.severity rule"
  shows "exec_loop filePath lineNum rule' R ln issues = exec_loop filePath lineNum rule R ln issues"
proof (cases "exec_loop filePath lineNum rule R ln issues")
  case (Some res)
  from exec_loop_same_message [OF Some assms] Some show ?thesis by simp
next
  case None
  show ?thesis
  proof (cases "exec_loop filePath lineNum rule' R ln issues")
    case (Some res)
    from exec_loop_same_message [OF Some assms [symmetric]] None show ?thesis by simp
  next
    case n: None
    with None show ?thesis by simp
  qed
qed

lemma reset_cursor_simps [simp]:
  "lang (reset_cursor rule) = lang rule"
  "lint_rule.issue (reset_cursor rule) = lint_rule.issue rule"
  "lint_rule.severity (reset_cursor rule) = lint_rule.severity rule"
  "source (pattern (reset_cursor rule)) = source (pattern rule)"
  "flags (pattern (reset_cursor rule)) = flags (pattern rule)"
  "skipped (reset_cursor rule) ext = skipped rule ext"
  by (simp_all add: reset_cursor_def skipped_def)

lemma rules_loop_reset_cursor:
  "rules_loop filePath ext lineNum ln (map reset_cursor rules) issues =
   rules_loop filePath ext lineNum ln rules issues"
proof (induction rules arbitrary: issues)
  case Nil
  show ?case by simp
next
  case (Cons rule rules)
  have "exec_loop filePath lineNum (reset_cursor rule)
          (new_RegExp (source (pattern rule)) (flags (pattern rule))) ln issues =
        exec_loop filePath lineNum rule
          (new_RegExp (source (pattern rule)) (flags (pattern rule))) ln issues"
    by (rule exec_loop_message_only) simp_all
  with Cons.IH show ?case by (simp split: option.splits)
qed

lemma lines_loop_reset_cursor:
  "lines_loop (map reset_cursor rules) filePath ext i lns issues =
   lines_loop rules filePath ext i lns issues"
  by (induction lns arbitrary: i issues) (simp_all add: rules_loop_reset_cursor split: option.splits)

lemma lintFile_with_reset_cursor:
  "lintFile_with (map reset_cursor rules) filePath content = lintFile_with rules filePath content"
  by (simp add: lintFile_with_def lines_loop_reset_cursor)

section \<open>The classification of a complexity score\<close>

text \<open>
  C6. For every complexity score \<open>s\<close>, the classification that the complexity command
  reports is low when \<open>s < 10\<close>, moderate when \<open>10 \<le> s < 20\<close> and high when \<open>s \<ge> 20\<close>;
  9 is low, 10 and 19 are moderate, 20 is high. The classification that a run of the
  command reports is the one of the score it reports.
\<close>

theorem complexity_classification:
  "(s < 10 \<longrightarrow> classify s = Low) \<and>
   (10 \<le> s \<and> s < 20 \<longrightarrow> classify s = Moderate) \<and>
   (20 \<le> s \<longrightarrow> classify s = High) \<and>
   classify 9 = Low \<and> classify 10 = Moderate \<and> classify 19 = Moderate \<and> classify 20 = High \<and>
   (complexity_action ev filePath = Exit code (score, cl) \<longrightarrow> cl = classify score)"
  by (auto simp: classify_def complexity_action_def Let_def split: sum.splits)

theorem complexity_classification_witness:
  "classify 3 = Low \<and> classify 14 = Moderate \<and> classify 57 = High"
  using complexity_classification [of 3] complexity_classification [of 14]
    complexity_classification [of 57]
  by simp

section \<open>Termination of the scan\<close>

text \<open>
  C1, as the specification states it: for every rule whose pattern can match the empty
  string and every text, the loop of \<^verbatim>\<open>lintFile\<close> terminates, because the scan position
  advances after an empty match. The loop has no such step. The pattern \<^verbatim>\<open>/a*/g\<close> matches
  the empty string at position 0 of the line \<^verbatim>\<open>b\<close>, \<^verbatim>\<open>exec\<close> leaves the cursor at 0, and the
  loop finds the same match for ever.
\<close>

theorem empty_match_never_terminates:
  "matcher (Repeat (Chr (CHR ''a'')) 0) False ''b'' 0 = [0] \<and>
   lintFile_with
     [\<lparr>lang = None, pattern = literal (Repeat (Chr (CHR ''a'')) 0) flag_g,
       issue = ''Run of a'', severity = Info\<rparr>]
     ''notes.txt'' ''b'' = None"
proof -
  have m: "matcher (Repeat (Chr (CHR ''a'')) 0) False ''b'' 0 = [0]" by code_simp
  have "stuck (new_RegExp (Repeat (Chr (CHR ''a'')) 0) flag_g) ''b''" by code_simp
  then have "exec_loop ''notes.txt'' 1
      \<lparr>lang = None, pattern = literal (Repeat (Chr (CHR ''a'')) 0) flag_g,
        issue = ''Run of a'', severity = Info\<rparr>
      (new_RegExp (Repeat (Chr (CHR ''a'')) 0) flag_g) ''b'' [] = None"
    by (rule exec_loop_stuck)
  moreover have "split ''b'' (CHR 0x0A) = [''b'']" by code_simp
  ultimately have "lintFile_with
     [\<lparr>lang = None, pattern = literal (Repeat (Chr (CHR ''a'')) 0) flag_g,
       issue = ''Run of a'', severity = Info\<rparr>]
     ''notes.txt'' ''b'' = None"
    by (simp add: lintFile_with_def skipped_def literal_def)
  with m show ?thesis by simp
qed

text \<open>
  C1, amended. For every list of rules whose patterns have the \<^verbatim>\<open>g\<close> flag and never match
  the empty string, and for every path and text, \<^verbatim>\<open>lintFile\<close> terminates and returns a
  finite list of issues. The twelve rules of \<^verbatim>\<open>LINT_RULES\<close> are of this kind, so
  \<^verbatim>\<open>lintFile\<close> itself always terminates. After a match of such a pattern the cursor is
  beyond the start of the match.
\<close>

theorem lintFile_terminates:
  "((\<forall>rule \<in> set rules. productive rule) \<longrightarrow>
      (\<exists>issues. lintFile_with rules filePath content = Some issues)) \<and>
   (\<exists>issues. lintFile filePath content = Some issues) \<and>
   (global (flags R) \<and> never_empty R \<and> exec R ln = (Some i, R') \<longrightarrow>
      start R \<le> i \<and> i < lastIndex R')"
proof (intro conjI impI)
  assume "\<forall>rule \<in> set rules. productive rule"
  then show "\<exists>issues. lintFile_with rules filePath content = Some issues"
    by (rule lintFile_with_total)
next
  show "\<exists>issues. lintFile filePath content = Some issues" by (rule lintFile_total)
next
  assume a: "global (flags R) \<and> never_empty R \<and> exec R ln = (Some i, R')"
  then obtain e where e: "search (source R) (multiline (flags R)) ln (start R) = Some (i, e)"
    and R': "R' = R\<lparr>lastIndex := e\<rparr>"
    by (auto simp: exec_Some)
  from search_Some [OF e] have i: "start R \<le> i" "i \<le> length ln"
    "matcher (source R) (multiline (flags R)) ln i \<noteq> []"
    "e = hd (matcher (source R) (multiline (flags R)) ln i)" by simp_all
  then have "e \<in> set (matcher (source R) (multiline (flags R)) ln i)" by simp
  with a i(2) have "i < e" by (auto intro: never_empty_progress)
  with i(1) R' show "start R \<le> i" "i < lastIndex R'" by simp_all
qed

theorem lintFile_terminates_witness:
  "\<exists>issues. lintFile_with LINT_RULES ''a.js'' ''var x = 1;'' = Some issues"
  using lintFile_terminates [of LINT_RULES "''a.js''" "''var x = 1;''"] LINT_RULES_productive
  by blast

section \<open>The var rule on a JavaScript file\<close>

lemma split_var_line: "split ''var x = 1;\<newline>'' (CHR 0x0A) = [''var x = 1;'', '''']"
  by code_simp

lemma lines_loop_var_line:
  "lines_loop LINT_RULES filePath ''js'' 0 [''var x = 1;'', ''''] [] =
   Some [\<lparr>file = filePath, line = 1, issue = ''Use \"let\" or \"const\" instead of \"var\"'',
          severity = Warning, column = 1\<rparr>]"
  by code_simp

text \<open>
  C7. Scanning the text \<^verbatim>\<open>var x = 1;\<close> followed by a newline, as a unit whose extension
  is \<^verbatim>\<open>js\<close>, with the built-in rules gives exactly one issue: line 1, column 1, severity
  warning.
\<close>

theorem var_usage_example:
  "getExtension filePath = ''js'' \<Longrightarrow>
   lintFile filePath ''var x = 1;\<newline>'' =
     Some [\<lparr>file = filePath, line = 1, issue = ''Use \"let\" or \"const\" instead of \"var\"'',
            severity = Warning, column = 1\<rparr>]"
  by (simp only: lintFile_def lintFile_with_def split_var_line lines_loop_var_line)

theorem var_usage_example_witness:
  "getExtension ''src/App.JS'' = ''js'' \<and>
   lintFile ''src/App.JS'' ''var x = 1;\<newline>'' =
     Some [\<lparr>file = ''src/App.JS'', line = 1,
            issue = ''Use \"let\" or \"const\" instead of \"var\"'',
            severity = Warning, column = 1\<rparr>]"
proof -
  have ext: "getExtension ''src/App.JS'' = ''js''" by code_simp
  from var_usage_example [OF ext] ext show ?thesis by simp
qed

section \<open>The extension of a name without a dot\<close>

text \<open>
  C3. The language identifier is the lower-cased trailing extension, and for a name with
  no dot at all only the rules without a language list apply. \<^verbatim>\<open>getExtension\<close> returns
  the whole name when it has no dot, so a file named \<^verbatim>\<open>js\<close> is linted with the rules for
  JavaScript: the var rule, which has a language list, reports an issue.
\<close>

theorem name_without_dot_gets_language_rules:
  "CHR ''.'' \<notin> set ''js'' \<and> getExtension ''js'' = ''js'' \<and>
   lang (LINT_RULES ! 0) = Some [''js'', ''ts'', ''jsx'', ''tsx''] \<and>
   lintFile ''js'' ''var x = 1;'' =
     Some [\<lparr>file = ''js'', line = 1, issue = lint_rule.issue (LINT_RULES ! 0),
            severity = Warning, column = 1\<rparr>]"
  by code_simp

section \<open>Language scope\<close>

lemma lines_loop_no_rules: "lines_loop [] filePath ext i lns issues = Some issues"
  by (induction lns arbitrary: i) simp_all

text \<open>
  C8. A rule whose language list does not contain the extension of the unit never
  produces an issue for it, whatever the text: taking the rule out of the rule list does
  not change the result of the scan, and scanning with that rule alone gives no issue.
  Every issue of a scan is the message and severity of a rule that has no language list
  or whose list contains the extension.
\<close>

theorem language_scope:
  "(skipped rule (getExtension filePath) \<longrightarrow>
      lintFile_with (rules1 @ rule # rules2) filePath content =
        lintFile_with (rules1 @ rules2) filePath content \<and>
      lintFile_with [rule] filePath content = Some []) \<and>
   (lintFile_with rules filePath content = Some issues \<and> x \<in> set issues \<longrightarrow>
      (\<exists>r \<in> set rules.
         (lang r = None \<or> (\<exists>langs. lang r = Some langs \<and> getExtension filePath \<in> set langs)) \<and>
         lint_issue.issue x = lint_rule.issue r \<and> lint_issue.severity x = lint_rule.severity r))"
proof (intro conjI impI)
  assume s: "skipped rule (getExtension filePath)"
  then show "lintFile_with (rules1 @ rule # rules2) filePath content =
        lintFile_with (rules1 @ rules2) filePath content"
    by (simp add: lintFile_with_def lines_loop_skip)
  from s have "lintFile_with ([] @ rule # []) filePath content = lintFile_with ([] @ []) filePath content"
    unfolding lintFile_with_def by (rule lines_loop_skip)
  moreover have "lintFile_with [] filePath content = Some []"
    by (simp add: lintFile_with_def lines_loop_no_rules)
  ultimately show "lintFile_with [rule] filePath content = Some []" by simp
next
  assume "lintFile_with rules filePath content = Some issues \<and> x \<in> set issues"
  then obtain k r where r: "r \<in> set rules" "\<not> skipped r (getExtension filePath)"
    "x = issue_at filePath (k + 1) r (column x)"
    using lintFile_with_issue [of rules filePath content issues x] by blast
  from r(3) have "lint_issue.issue x = lint_rule.issue r \<and> lint_issue.severity x = lint_rule.severity r"
    by (metis issue_at_def lint_issue.select_convs(3,4))
  moreover from r(2) have "lang r = None \<or> (\<exists>langs. lang r = Some langs \<and> getExtension filePath \<in> set langs)"
    by (cases "lang r") (simp_all add: skipped_def)
  ultimately show "\<exists>r \<in> set rules.
         (lang r = None \<or> (\<exists>langs. lang r = Some langs \<and> getExtension filePath \<in> set langs)) \<and>
         lint_issue.issue x = lint_rule.issue r \<and> lint_issue.severity x = lint_rule.severity r"
    using r(1) by blast
qed

theorem language_scope_witness:
  "skipped (LINT_RULES ! 6) (getExtension ''a.js'') \<and>
   lintFile_with [LINT_RULES ! 6] ''a.js'' ''try: pass except: pass'' = Some []"
proof -
  have s: "skipped (LINT_RULES ! 6) (getExtension ''a.js'')" by code_simp
  with language_scope [of "LINT_RULES ! 6" "''a.js''" "[]" "[]" "''try: pass except: pass''"]
  show ?thesis by blast
qed

section \<open>No cursor state between scans\<close>

text \<open>
  C9. Scanning the same text with the same rules again gives the same sequence of issues:
  no cursor of a matcher survives from one line, file or call to the next. \<^verbatim>\<open>lintFile\<close>
  builds a fresh \<^verbatim>\<open>RegExp\<close> object for every line and rule, so the result of a scan does not
  depend on the cursors (\<^verbatim>\<open>lastIndex\<close>) of the pattern objects of the rules: two rule lists
  that differ only in these cursors give the same result, be it a list of issues or a scan
  that never returns.
\<close>

theorem scan_independent_of_cursors:
  "map reset_cursor rules = map reset_cursor rules' \<Longrightarrow>
   lintFile_with rules filePath content = lintFile_with rules' filePath content"
proof -
  assume "map reset_cursor rules = map reset_cursor rules'"
  then have "lintFile_with (map reset_cursor rules) filePath content =
      lintFile_with (map reset_cursor rules') filePath content" by simp
  then show ?thesis by (simp only: lintFile_with_reset_cursor)
qed

text \<open>
  An example in which the cursor matters: the tab rule with a stale cursor at 7, on a line
  whose only tab is at position 0. A scan that ran \<^verbatim>\<open>exec\<close> on the pattern object of the
  rule would start behind the tab and miss it; \<^verbatim>\<open>lintFile\<close> reports it in column 1.
\<close>

lemma tab_rule_scan:
  "lintFile_with
     [\<lparr>lang = None, pattern = \<lparr>source = Chr (CHR 0x09), flags = flag_g, lastIndex = 0\<rparr>,
       issue = ''Use spaces instead of tabs'', severity = Warning\<rparr>]
     ''Makefile'' (CHR 0x09 # ''all: build'') =
   Some [\<lparr>file = ''Makefile'', line = 1, issue = ''Use spaces instead of tabs'',
          severity = Warning, column = 1\<rparr>]"
  by code_simp

theorem scan_independent_of_cursors_witness:
  "map reset_cursor
     [\<lparr>lang = None, pattern = \<lparr>source = Chr (CHR 0x09), flags = flag_g, lastIndex = 7\<rparr>,
       issue = ''Use spaces instead of tabs'', severity = Warning\<rparr>] =
   map reset_cursor
     [\<lparr>lang = None, pattern = \<lparr>source = Chr (CHR 0x09), flags = flag_g, lastIndex = 0\<rparr>,
       issue = ''Use spaces instead of tabs'', severity = Warning\<rparr>] \<and>
   lintFile_with
     [\<lparr>lang = None, pattern = \<lparr>source = Chr (CHR 0x09), flags = flag_g, lastIndex = 7\<rparr>,
       issue = ''Use spaces instead of tabs'', severity = Warning\<rparr>]
     ''Makefile'' (CHR 0x09 # ''all: build'') =
   Some [\<lparr>file = ''Makefile'', line = 1, issue = ''Use spaces instead of tabs'',
          severity = Warning, column = 1\<rparr>] \<and>
   fst (exec \<lparr>source = Chr (CHR 0x09), flags = flag_g, lastIndex = 7\<rparr>
          (CHR 0x09 # ''all: build'')) = None"
proof -
  have h: "map reset_cursor
     [\<lparr>lang = None, pattern = \<lparr>source = Chr (CHR 0x09), flags = flag_g, lastIndex = 7\<rparr>,
       issue = ''Use spaces instead of tabs'', severity = Warning\<rparr>] =
   map reset_cursor
     [\<lparr>lang = None, pattern = \<lparr>source = Chr (CHR 0x09), flags = flag_g, lastIndex = 0\<rparr>,
       issue = ''Use spaces instead of tabs'', severity = Warning\<rparr>]"
    by (simp add: reset_cursor_def)
  have stale: "fst (exec \<lparr>source = Chr (CHR 0x09), flags = flag_g, lastIndex = 7\<rparr>
          (CHR 0x09 # ''all: build'')) = None"
    by code_simp
  from scan_independent_of_cursors [OF h, of "''Makefile''" "CHR 0x09 # ''all: build''"]
    tab_rule_scan h stale
  show ?thesis by simp
qed

section \<open>Positions and order of the issues\<close>

text \<open>
  C10. Every issue of a scan has a line number between 1 and the number of lines of the
  text (the pieces between newlines), and a column between 1 and the length of that line.
  The issues come in nondecreasing line order: they are the concatenation, line after
  line, of one block per rule in the order of the rule list, and in the block of a rule
  the columns increase strictly.
\<close>

theorem issue_positions:
  assumes "lintFile_with rules filePath content = Some issues"
  shows "(\<forall>x \<in> set issues.
            1 \<le> line x \<and> line x \<le> length (split content (CHR 0x0A)) \<and>
            1 \<le> column x \<and> column x \<le> length (split content (CHR 0x0A) ! (line x - 1))) \<and>
         sorted (map line issues) \<and>
         (\<exists>bss. issues = concat (map concat bss) \<and>
            length bss = length (split content (CHR 0x0A)) \<and>
            (\<forall>k < length (split content (CHR 0x0A)).
               list_all2 (rule_block filePath (getExtension filePath) (k + 1)
                 (split content (CHR 0x0A) ! k)) rules (bss ! k)))"
proof -
  from lines_loop_Some [OF assms [unfolded lintFile_with_def]] obtain bss where
    bss: "issues = concat (map concat bss)" "length bss = length (split content (CHR 0x0A))"
    "\<forall>k < length (split content (CHR 0x0A)).
       list_all2 (rule_block filePath (getExtension filePath) (0 + k + 1)
         (split content (CHR 0x0A) ! k)) rules (bss ! k)"
    by auto
  have "\<forall>x \<in> set issues.
            1 \<le> line x \<and> line x \<le> length (split content (CHR 0x0A)) \<and>
            1 \<le> column x \<and> column x \<le> length (split content (CHR 0x0A) ! (line x - 1))"
  proof
    fix x assume "x \<in> set issues"
    with bss(1) have "x \<in> set (concat (map concat bss))" by simp
    from blocks_positions [OF bss(2,3) this] obtain k where
      "k < length (split content (CHR 0x0A))" "line x = 0 + k + 1" "1 \<le> column x"
      "column x \<le> length (split content (CHR 0x0A) ! k)" by blast
    then show "1 \<le> line x \<and> line x \<le> length (split content (CHR 0x0A)) \<and>
            1 \<le> column x \<and> column x \<le> length (split content (CHR 0x0A) ! (line x - 1))"
      by simp
  qed
  moreover from blocks_sorted [OF bss(2,3)] bss(1) have "sorted (map line issues)" by simp
  moreover from bss have "\<exists>bss. issues = concat (map concat bss) \<and>
            length bss = length (split content (CHR 0x0A)) \<and>
            (\<forall>k < length (split content (CHR 0x0A)).
               list_all2 (rule_block filePath (getExtension filePath) (k + 1)
                 (split content (CHR 0x0A) ! k)) rules (bss ! k))"
    by auto
  ultimately show ?thesis by blast
qed

lemma two_vars_scan:
  "lintFile_with LINT_RULES ''a.js'' ''var a; var b '' =
     Some [issue_at ''a.js'' 1 (LINT_RULES ! 0) 1, issue_at ''a.js'' 1 (LINT_RULES ! 0) 8,
           issue_at ''a.js'' 1 (LINT_RULES ! 10) 13]"
  by code_simp

theorem issue_positions_witness:
  "lintFile_with LINT_RULES ''a.js'' ''var a; var b '' =
     Some [issue_at ''a.js'' 1 (LINT_RULES ! 0) 1, issue_at ''a.js'' 1 (LINT_RULES ! 0) 8,
           issue_at ''a.js'' 1 (LINT_RULES ! 10) 13] \<and>
   sorted (map line [issue_at ''a.js'' 1 (LINT_RULES ! 0) 1, issue_at ''a.js'' 1 (LINT_RULES ! 0) 8,
           issue_at ''a.js'' 1 (LINT_RULES ! 10) 13])"
  using issue_positions [OF two_vars_scan] two_vars_scan by blast

section \<open>The complexity score\<close>

lemma complexity_loop_count:
  "complexity_loop lns c = c + length (filter (test branch_pattern) lns)"
  by (induction lns arbitrary: c) simp_all

lemma occurrence_nth:
  assumes "take (length k) (drop x s) = k" "i < length k"
  shows "x + i < length s \<and> s ! (x + i) = k ! i"
proof -
  from assms(1) have "length (take (length k) (drop x s)) = length k" by simp
  then have len: "x + length k \<le> length s" using assms(2) by (simp add: min_def split: if_splits)
  from assms have "k ! i = take (length k) (drop x s) ! i" by simp
  also from assms(2) len have "\<dots> = s ! (x + i)" by simp
  finally show ?thesis using len assms(2) by simp
qed

lemma matcher_str:
  "matcher (str k) ml s x = (if take (length k) (drop x s) = k then [x + length k] else [])"
proof (induction k arbitrary: x rule: str.induct)
  case 1
  show ?case by simp
next
  case (2 c)
  show ?case
  proof (cases "x < length s")
    case True
    then have "take (Suc 0) (drop x s) = [s ! x]"
      by (simp add: take_Suc_conv_app_nth)
    with True show ?thesis by (auto simp: char_matcher_def)
  next
    case False
    then show ?thesis by (simp add: char_matcher_def)
  qed
next
  case (3 c d ds)
  show ?case
  proof (cases "x < length s")
    case True
    then have t: "take (Suc (Suc (length ds))) (drop x s) = s ! x # take (Suc (length ds)) (drop (Suc x) s)"
      by (metis Cons_nth_drop_Suc take_Suc_Cons)
    show ?thesis
    proof (cases "s ! x = c")
      case c: True
      with True have "matcher (str (c # d # ds)) ml s x = matcher (str (d # ds)) ml s (Suc x)"
        by (simp add: char_matcher_def)
      with "3.IH" [of "Suc x"] t c show ?thesis by simp
    next
      case False
      with True t show ?thesis by (simp add: char_matcher_def)
    qed
  next
    case False
    then show ?thesis by (simp add: char_matcher_def)
  qed
qed

lemma wordCharAt_int: "wordCharAt s (int n) = (n < length s \<and> isWordChar (s ! n))"
  by (simp add: wordCharAt_def)

lemma keyword_match:
  assumes "k \<noteq> []" "\<forall>c \<in> set k. isWordChar c"
  shows "matcher (keyword k) ml s x \<noteq> [] \<longleftrightarrow> x < length s \<and> whole_word_at k s x"
proof (cases "take (length k) (drop x s) = k")
  case False
  then show ?thesis by (simp add: keyword_def matcher_str whole_word_at_def)
next
  case True
  from assms(1) have pos: "0 < length k" by simp
  from occurrence_nth [OF True pos] have x: "x < length s" "s ! x = k ! 0" by simp_all
  from assms(1) have "length k - 1 < length k" by simp
  from occurrence_nth [OF True this] pos
  have e: "x + length k - 1 < length s" "s ! (x + length k - 1) = k ! (length k - 1)"
    by (simp_all add: Nat.add_diff_assoc)
  from assms x pos have wx: "wordCharAt s (int x)" by (simp add: wordCharAt_def)
  define p where "p = x + length k - 1"
  from pos obtain n where n: "length k = Suc n" by (cases "length k") auto
  then have ip: "int (x + length k) - 1 = int p" by (simp add: p_def)
  from assms e pos have "p < length s" "isWordChar (s ! p)" by (simp_all add: p_def)
  then have "wordCharAt s (int p)" by (simp add: wordCharAt_def)
  with ip have we: "wordCharAt s (int (x + length k) - 1)" by simp
  have b1: "wordCharAt s (int x - 1) \<longleftrightarrow> \<not> (x = 0 \<or> \<not> isWordChar (s ! (x - 1)))"
    using x(1) by (cases x) (auto simp: wordCharAt_def nat_diff_distrib')
  have b2: "wordCharAt s (int (x + length k)) \<longleftrightarrow>
      \<not> (length s \<le> x + length k \<or> \<not> isWordChar (s ! (x + length k)))"
    using wordCharAt_int [of s "x + length k"] by auto
  define B where "B y = (wordCharAt s (int y - 1) \<noteq> wordCharAt s (int y))" for y
  have wb: "matcher WordBoundary ml s y = (if B y then [y] else [])" for y
    by (simp add: B_def)
  have "matcher (Seq (str k) WordBoundary) ml s x =
      concat (map (matcher WordBoundary ml s) (matcher (str k) ml s x))"
    by (rule matcher.simps(11))
  also have "\<dots> = concat (map (matcher WordBoundary ml s) [x + length k])"
    using True by (simp only: matcher_str refl if_True)
  also have "\<dots> = (if B (x + length k) then [x + length k] else [])"
    by (simp only: wb list.map concat.simps append_Nil2)
  finally have inner: "matcher (Seq (str k) WordBoundary) ml s x =
      (if B (x + length k) then [x + length k] else [])" .
  have "matcher (keyword k) ml s x =
      concat (map (matcher (Seq (str k) WordBoundary) ml s) (matcher WordBoundary ml s x))"
    unfolding keyword_def by (rule matcher.simps(11))
  also have "\<dots> = (if B x then matcher (Seq (str k) WordBoundary) ml s x else [])"
    by (cases "B x") (simp_all only: wb if_True if_False list.map concat.simps append_Nil2)
  finally have "matcher (keyword k) ml s x =
      (if B x then (if B (x + length k) then [x + length k] else []) else [])"
    by (simp only: inner)
  then have "matcher (keyword k) ml s x \<noteq> [] \<longleftrightarrow> B x \<and> B (x + length k)"
    by (cases "B x"; cases "B (x + length k)") simp_all
  then have "matcher (keyword k) ml s x \<noteq> [] \<longleftrightarrow>
      wordCharAt s (int x - 1) \<noteq> wordCharAt s (int x) \<and>
      wordCharAt s (int (x + length k) - 1) \<noteq> wordCharAt s (int (x + length k))"
    by (simp only: B_def)
  also have "\<dots> \<longleftrightarrow> \<not> wordCharAt s (int x - 1) \<and> \<not> wordCharAt s (int (x + length k))"
    using wx we by simp
  also have "\<dots> \<longleftrightarrow> x < length s \<and> whole_word_at k s x"
    using True x(1) b1 b2 by (simp add: whole_word_at_def)
  finally show ?thesis .
qed

lemma search_from_0:
  "search r ml s 0 \<noteq> None \<longleftrightarrow> (\<exists>x \<le> length s. matcher r ml s x \<noteq> [])"
proof
  assume "search r ml s 0 \<noteq> None"
  then obtain j e where "search r ml s 0 = Some (j, e)" by auto
  from search_Some [OF this] show "\<exists>x \<le> length s. matcher r ml s x \<noteq> []" by auto
next
  assume "\<exists>x \<le> length s. matcher r ml s x \<noteq> []"
  then obtain x where x: "x \<le> length s" "matcher r ml s x \<noteq> []" by auto
  show "search r ml s 0 \<noteq> None"
  proof
    assume "search r ml s 0 = None"
    from search_None [OF this _ x(1)] x(2) show False by simp
  qed
qed

lemma branch_keywords_are_words: "\<forall>k \<in> set branch_keywords. k \<noteq> [] \<and> (\<forall>c \<in> set k. isWordChar c)"
  by (simp add: branch_keywords_def isWordChar_def)

lemma test_branch_pattern: "test branch_pattern ln = has_keyword ln"
proof -
  have kw: "matcher (keyword k) False ln x \<noteq> [] \<longleftrightarrow> x < length ln \<and> whole_word_at k ln x"
    if "k \<in> set branch_keywords" for k x
  proof (rule keyword_match)
    from that branch_keywords_are_words show "k \<noteq> []" by blast
    from that branch_keywords_are_words show "\<forall>c \<in> set k. isWordChar c" by blast
  qed
  have alt: "matcher (source branch_pattern) False ln x \<noteq> [] \<longleftrightarrow>
      (\<exists>k \<in> set branch_keywords. matcher (keyword k) False ln x \<noteq> [])" for x
    by (simp add: branch_pattern_def literal_def branch_keywords_def)
  have fl: "multiline (flags branch_pattern) = False" "start branch_pattern = 0"
    by (simp_all add: branch_pattern_def literal_def start_def)
  have "test branch_pattern ln \<longleftrightarrow> search (source branch_pattern) False ln 0 \<noteq> None"
    by (simp add: test_def exec_None fl)
  also have "\<dots> \<longleftrightarrow> (\<exists>x \<le> length ln. matcher (source branch_pattern) False ln x \<noteq> [])"
    by (rule search_from_0)
  also have "\<dots> \<longleftrightarrow> (\<exists>k \<in> set branch_keywords. \<exists>x < length ln. whole_word_at k ln x)"
  proof
    assume "\<exists>x \<le> length ln. matcher (source branch_pattern) False ln x \<noteq> []"
    then obtain x k where "k \<in> set branch_keywords" "matcher (keyword k) False ln x \<noteq> []"
      unfolding alt by blast
    with kw [of k x] show "\<exists>k \<in> set branch_keywords. \<exists>x < length ln. whole_word_at k ln x"
      by blast
  next
    assume "\<exists>k \<in> set branch_keywords. \<exists>x < length ln. whole_word_at k ln x"
    then obtain k x where k: "k \<in> set branch_keywords" "x < length ln" "whole_word_at k ln x"
      by blast
    with kw [of k x] have "matcher (keyword k) False ln x \<noteq> []" by blast
    with k(1) have "matcher (source branch_pattern) False ln x \<noteq> []" unfolding alt by blast
    with k(2) show "\<exists>x \<le> length ln. matcher (source branch_pattern) False ln x \<noteq> []"
      by (intro exI [of _ x]) simp
  qed
  also have "\<dots> \<longleftrightarrow> has_keyword ln"
  proof -
    have "(\<exists>x \<in> set [0..<length ln]. whole_word_at k ln x) \<longleftrightarrow>
        (\<exists>x < length ln. whole_word_at k ln x)" for k
      by (simp add: Bex_def)
    then show ?thesis by (simp add: has_keyword_def list_ex_iff)
  qed
  finally show ?thesis .
qed

text \<open>
  C5. For every text, the complexity score is 1 plus the number of lines that contain at
  least one whole-word occurrence of one of the keywords if, for, while, switch, catch and
  case: a line counts once however many keywords it holds, and a keyword inside a longer
  identifier does not count. The score of the empty text is 1, and the score of
  \<^verbatim>\<open>if (a) { if (b) {} }\<close> followed by a newline is 2.
\<close>

theorem complexity_score:
  "calculateComplexity content = 1 + length (filter has_keyword (split content (CHR 0x0A))) \<and>
   calculateComplexity '''' = 1 \<and>
   calculateComplexity ''if (a) { if (b) {} }\<newline>'' = 2"
proof -
  have "calculateComplexity content = 1 + length (filter has_keyword (split content (CHR 0x0A)))" for content
    unfolding calculateComplexity_def complexity_loop_count
    by (simp add: test_branch_pattern [abs_def])
  moreover have "calculateComplexity '''' = 1" by code_simp
  moreover have "calculateComplexity ''if (a) { if (b) {} }\<newline>'' = 2" by code_simp
  ultimately show ?thesis by blast
qed

theorem complexity_score_witness:
  "calculateComplexity ''if (x) y\<newline>iffy = 1\<newline>for (;;) { switch (z) {} }'' = 3 \<and>
   filter has_keyword (split ''if (x) y\<newline>iffy = 1\<newline>for (;;) { switch (z) {} }'' (CHR 0x0A)) =
     [''if (x) y'', ''for (;;) { switch (z) {} }'']"
proof -
  have "filter has_keyword (split ''if (x) y\<newline>iffy = 1\<newline>for (;;) { switch (z) {} }'' (CHR 0x0A)) =
     [''if (x) y'', ''for (;;) { switch (z) {} }'']"
    by code_simp
  with complexity_score [of "''if (x) y\<newline>iffy = 1\<newline>for (;;) { switch (z) {} }''"]
  show ?thesis by simp
qed

section \<open>The traversal\<close>

lemma lint_one_files:
  "lint_one ev rules filePath content st = Continue st' \<Longrightarrow>
   filesLinted st' = filesLinted st + 1"
  by (auto simp: lint_one_def split: option.splits if_splits)

lemma lint_one_no_hang:
  "\<forall>rule \<in> set rules. productive rule \<Longrightarrow> lint_one ev rules filePath content st \<noteq> Hung"
  using lintFile_with_total [of rules filePath content]
  by (auto simp: lint_one_def split: if_splits)

lemma traversal_Continue:
  "lintDir ev rules dir nd st = Continue st' \<Longrightarrow>
     \<not> node_fails nd \<and> filesLinted st' = filesLinted st + count_files nd"
  "items_loop ev rules dir items st = Continue st' \<Longrightarrow>
     \<not> list_ex (\<lambda>item. node_fails (snd item)) items \<and>
     filesLinted st' = filesLinted st + sum_list (map (\<lambda>item. count_files (snd item)) items)"
proof (induction ev rules dir nd st and ev rules dir items st arbitrary: st' and st'
    rule: lintDir_items_loop.induct)
  case (8 ev rules dir item nd items st)
  show ?case
  proof (cases nd)
    case (File content)
    with "8.prems" obtain st1 where
      st1: "lint_one ev rules (join ev dir item) content st = Continue st1"
      and rest: "items_loop ev rules dir items st1 = Continue st'"
      by (auto simp: isFile_def isDirectory_def split: step.splits)
    from "8.IH"(3) [OF refl _ _ _ _ st1 rest] File
    have "\<not> list_ex (\<lambda>item. node_fails (snd item)) items \<and>
      filesLinted st' = filesLinted st1 + sum_list (map (\<lambda>item. count_files (snd item)) items)"
      by (simp add: isFile_def isDirectory_def)
    with lint_one_files [OF st1] File show ?thesis by simp
  next
    case (UnreadableFile e)
    with "8.prems" show ?thesis by (simp add: isFile_def isDirectory_def)
  next
    case (Directory sub)
    with "8.prems" obtain st1 where
      st1: "lintDir ev rules (join ev dir item) nd st = Continue st1"
      and rest: "items_loop ev rules dir items st1 = Continue st'"
      by (auto simp: isFile_def isDirectory_def split: step.splits)
    from Directory have s: "statSync nd = Inr IsDirectory" "isDirectory IsDirectory"
      by (simp_all add: isDirectory_def)
    from "8.IH"(1) [OF refl s st1]
    have a: "\<not> node_fails nd" "filesLinted st1 = filesLinted st + count_files nd" by simp_all
    from "8.IH"(2) [OF refl s st1 rest]
    have "\<not> list_ex (\<lambda>item. node_fails (snd item)) items \<and>
      filesLinted st' = filesLinted st1 + sum_list (map (\<lambda>item. count_files (snd item)) items)" .
    with a show ?thesis by simp
  next
    case (UnreadableDirectory e)
    with "8.prems" show ?thesis by (simp add: isFile_def isDirectory_def)
  next
    case (Special r)
    with "8.prems" have rest: "items_loop ev rules dir items st = Continue st'"
      by (simp add: isFile_def isDirectory_def)
    from Special have s: "statSync nd = Inr IsOther" "\<not> isDirectory IsOther" "\<not> isFile IsOther"
      by (simp_all add: isFile_def isDirectory_def)
    from "8.IH"(4) [OF refl s rest] Special show ?thesis by simp
  next
    case (NoStat e)
    with "8.prems" show ?thesis by simp
  qed
qed simp_all

lemma traversal_no_hang:
  "\<forall>rule \<in> set rules. productive rule \<Longrightarrow> lintDir ev rules dir nd st \<noteq> Hung"
  "\<forall>rule \<in> set rules. productive rule \<Longrightarrow> items_loop ev rules dir items st \<noteq> Hung"
proof (induction ev rules dir nd st and ev rules dir items st
    rule: lintDir_items_loop.induct)
  case (8 ev rules dir item nd items st)
  note p = "8.prems"
  show ?case
  proof (cases nd)
    case (File content)
    from lint_one_no_hang [OF p] have
      a: "lint_one ev rules (join ev dir item) content st \<noteq> Hung" .
    show ?thesis
    proof (cases "lint_one ev rules (join ev dir item) content st")
      case (Continue st1)
      from "8.IH"(3) [OF refl _ _ _ _ Continue p] File
      have "items_loop ev rules dir items st1 \<noteq> Hung"
        by (simp add: isFile_def isDirectory_def)
      with File Continue show ?thesis by (simp add: isFile_def isDirectory_def)
    next
      case (Thrown e)
      with File show ?thesis by (simp add: isFile_def isDirectory_def)
    next
      case Hung
      with a show ?thesis by simp
    qed
  next
    case (Directory sub)
    from Directory have s: "statSync nd = Inr IsDirectory" "isDirectory IsDirectory"
      by (simp_all add: isDirectory_def)
    from "8.IH"(1) [OF refl s p] have a: "lintDir ev rules (join ev dir item) nd st \<noteq> Hung" .
    show ?thesis
    proof (cases "lintDir ev rules (join ev dir item) nd st")
      case (Continue st1)
      from "8.IH"(2) [OF refl s Continue p] Continue Directory show ?thesis
        by (simp add: isDirectory_def)
    next
      case (Thrown e)
      with Directory show ?thesis by (simp add: isDirectory_def)
    next
      case Hung
      with a show ?thesis by simp
    qed
  next
    case (Special r)
    from Special have s: "statSync nd = Inr IsOther" "\<not> isDirectory IsOther" "\<not> isFile IsOther"
      by (simp_all add: isFile_def isDirectory_def)
    from "8.IH"(4) [OF refl s p] Special show ?thesis by (simp add: isFile_def isDirectory_def)
  qed (simp_all add: isFile_def isDirectory_def)
qed simp_all

lemma paths_loop_Continue:
  "paths_loop ev rules opts paths st = Continue st' \<Longrightarrow>
     (\<forall>p \<in> set paths. \<not> path_fails (recursive opts) (lookup ev p)) \<and>
     filesLinted st' =
       filesLinted st + sum_list (map (\<lambda>p. path_units (recursive opts) (lookup ev p)) paths)"
proof (induction paths arbitrary: st)
  case Nil
  then show ?case by simp
next
  case (Cons lintPath paths)
  show ?case
  proof (cases "lookup ev lintPath")
    case (File content)
    with Cons.prems obtain st1 where
      st1: "lint_one ev rules lintPath content st = Continue st1"
      and rest: "paths_loop ev rules opts paths st1 = Continue st'"
      by (auto simp: isFile_def isDirectory_def split: step.splits)
    from Cons.IH [OF rest] lint_one_files [OF st1] File show ?thesis
      by (simp add: path_fails_def path_units_def)
  next
    case (UnreadableFile e)
    with Cons.prems show ?thesis by (simp add: isFile_def isDirectory_def)
  next
    case (Directory sub)
    show ?thesis
    proof (cases "recursive opts")
      case True
      with Directory Cons.prems obtain st1 where
        st1: "lintDir ev rules lintPath (lookup ev lintPath) st = Continue st1"
        and rest: "paths_loop ev rules opts paths st1 = Continue st'"
        by (auto simp: isFile_def isDirectory_def split: step.splits)
      from traversal_Continue(1) [OF st1] Cons.IH [OF rest] Directory True show ?thesis
        by (simp add: path_fails_def path_units_def)
    next
      case False
      with Directory Cons.prems have "paths_loop ev rules opts paths st = Continue st'"
        by (simp add: isFile_def isDirectory_def)
      from Cons.IH [OF this] Directory False show ?thesis
        by (simp add: path_fails_def path_units_def)
    qed
  next
    case (UnreadableDirectory e)
    show ?thesis
    proof (cases "recursive opts")
      case True
      with UnreadableDirectory Cons.prems show ?thesis
        by (simp add: isFile_def isDirectory_def)
    next
      case False
      with UnreadableDirectory Cons.prems have "paths_loop ev rules opts paths st = Continue st'"
        by (simp add: isFile_def isDirectory_def)
      from Cons.IH [OF this] UnreadableDirectory False show ?thesis
        by (simp add: path_fails_def path_units_def)
    qed
  next
    case (Special r)
    with Cons.prems have "paths_loop ev rules opts paths st = Continue st'"
      by (simp add: isFile_def isDirectory_def)
    from Cons.IH [OF this] Special show ?thesis
      by (simp add: path_fails_def path_units_def)
  next
    case (NoStat e)
    with Cons.prems show ?thesis by simp
  qed
qed

lemma paths_loop_no_hang:
  assumes p: "\<forall>rule \<in> set rules. productive rule"
  shows "paths_loop ev rules opts paths st \<noteq> Hung"
proof (induction paths arbitrary: st)
  case Nil
  show ?case by simp
next
  case (Cons lintPath paths)
  show ?case
  proof (cases "lookup ev lintPath")
    case (File content)
    from lint_one_no_hang [OF p] have "lint_one ev rules lintPath content st \<noteq> Hung" .
    with Cons.IH File show ?thesis
      by (cases "lint_one ev rules lintPath content st")
        (simp_all add: isFile_def isDirectory_def)
  next
    case (Directory sub)
    from traversal_no_hang(1) [OF p] have
      "lintDir ev rules lintPath (lookup ev lintPath) st \<noteq> Hung" .
    with Cons.IH Directory show ?thesis
      by (cases "lintDir ev rules lintPath (lookup ev lintPath) st")
        (simp_all add: isFile_def isDirectory_def)
  next
    case (UnreadableDirectory e)
    with Cons.IH show ?thesis by (simp add: isFile_def isDirectory_def)
  next
    case (Special r)
    with Cons.IH show ?thesis by (simp add: isFile_def isDirectory_def)
  qed (simp_all add: isFile_def isDirectory_def)
qed

lemma lint_action_with_Exit:
  assumes "lint_action_with rules ev paths opts = Exit code report"
  shows "\<exists>st. paths_loop ev rules opts paths \<lparr>allIssues = [], filesLinted = 0\<rparr> = Continue st \<and>
     files report = filesLinted st \<and> found report = allIssues st \<and>
     summary report = severity_loop (allIssues st) \<lparr>error = 0, warning = 0, info = 0\<rparr> \<and>
     code = (if error (summary report) > 0 then 1 else 0)"
  using assms
  by (auto simp: lint_action_with_def Let_def split: step.splits option.splits if_splits)

lemma severity_loop_error:
  "error (severity_loop issues bySeverity) = error bySeverity + error_count issues"
  by (induction issues arbitrary: bySeverity)
    (auto simp: error_count_def split: severity.splits)

section \<open>A failure of the file system during the traversal\<close>

lemma sample_scans:
  "lintFile_with LINT_RULES ''a.js'' ''var x = 1;'' = Some [issue_at ''a.js'' 1 (LINT_RULES ! 0) 1]"
  "lintFile_with LINT_RULES ''b.js'' ''let y = 2;'' = Some []"
  "lintFile_with [strict_var_rule] ''a.js'' ''var x = 1;'' =
     Some [issue_at ''a.js'' 1 strict_var_rule 1]"
  "lintFile_with [strict_var_rule] ''b.js'' ''let y = 2;'' = Some []"
  by code_simp+

lemma sample_severities:
  "lint_issue.severity (issue_at filePath lineNum rule col) = lint_rule.severity rule"
  "lint_rule.severity (LINT_RULES ! 0) = Warning"
  "lint_rule.severity strict_var_rule = Error"
  by (simp_all add: issue_at_def LINT_RULES_def strict_var_rule_def)

lemmas sample_run =
  lint_action_def lint_action_with_def sample_env_def lint_one_def sample_scans
  sample_severities isFile_def isDirectory_def

text \<open>
  C2, as the specification states it: a traversal failure on one entry does not abort the
  run; the failing unit is skipped, the run goes on with the remaining entries and counts
  the units it has read. The lint command catches no exception. With the paths
  \<^verbatim>\<open>a.js\<close>, \<^verbatim>\<open>gone.js\<close> and \<^verbatim>\<open>b.js\<close>, of which the second does not exist, \<^verbatim>\<open>statSync\<close>
  throws on the second path and the run ends with that exception: \<^verbatim>\<open>b.js\<close> is never read
  and nothing is reported, whereas without the missing path the run reports two files.
\<close>

theorem missing_path_aborts_run:
  "lint_action sample_env [''a.js'', ''gone.js'', ''b.js''] \<lparr>recursive = False, output = None\<rparr> =
     Throws ENOENT \<and>
   (case lint_action sample_env [''a.js'', ''b.js''] \<lparr>recursive = False, output = None\<rparr> of
      Exit code report \<Rightarrow> files report = 2 | Throws e \<Rightarrow> False | Hangs \<Rightarrow> False)"
  by (simp add: sample_run)

text \<open>
  C2, amended. A failure of the file system on one entry of the traversal (a path on
  which \<^verbatim>\<open>statSync\<close> fails, a regular file that cannot be read, a directory that cannot
  be listed, at any depth that the traversal reaches) aborts the whole run: the run does
  not complete and reports nothing, and with the built-in rules it ends with an uncaught
  exception. A run that completes has met no such failure, and the number of files it
  reports is the number of regular files it has read: one for each path that is a regular
  file and, with the recursive flag, one for each regular file below each path that is a
  directory.
\<close>

theorem traversal_failure_aborts_run:
  "((\<exists>p \<in> set paths. path_fails (recursive opts) (lookup ev p)) \<longrightarrow>
      (\<forall>code report. lint_action_with rules ev paths opts \<noteq> Exit code report) \<and>
      (\<exists>e. lint_action ev paths opts = Throws e)) \<and>
   (lint_action_with rules ev paths opts = Exit code report \<longrightarrow>
      (\<forall>p \<in> set paths. \<not> path_fails (recursive opts) (lookup ev p)) \<and>
      files report = sum_list (map (\<lambda>p. path_units (recursive opts) (lookup ev p)) paths))"
proof -
  have exit: "(\<forall>p \<in> set paths. \<not> path_fails (recursive opts) (lookup ev p)) \<and>
      files report = sum_list (map (\<lambda>p. path_units (recursive opts) (lookup ev p)) paths)"
    if "lint_action_with rules ev paths opts = Exit code report" for rules code report
  proof -
    from lint_action_with_Exit [OF that] obtain st where
      st: "paths_loop ev rules opts paths \<lparr>allIssues = [], filesLinted = 0\<rparr> = Continue st"
      "files report = filesLinted st" by blast
    from paths_loop_Continue [OF st(1)] st(2) show ?thesis by simp
  qed
  have "\<exists>e. lint_action ev paths opts = Throws e"
    if f: "\<exists>p \<in> set paths. path_fails (recursive opts) (lookup ev p)"
  proof (cases "lint_action ev paths opts")
    case (Exit code report)
    from exit [OF Exit [unfolded lint_action_def]] f show ?thesis by blast
  next
    case (Throws e)
    then show ?thesis by blast
  next
    case Hangs
    with paths_loop_no_hang [OF LINT_RULES_productive, of ev opts paths "\<lparr>allIssues = [], filesLinted = 0\<rparr>"]
    show ?thesis
      by (auto simp: lint_action_def lint_action_with_def Let_def
          split: step.splits option.splits if_splits)
  qed
  with exit show ?thesis by blast
qed

theorem traversal_failure_aborts_run_witness:
  "path_fails False (lookup sample_env ''gone.js'') \<and>
   (\<exists>e. lint_action sample_env [''a.js'', ''gone.js'', ''b.js'']
           \<lparr>recursive = False, output = None\<rparr> = Throws e)"
proof -
  have f: "path_fails False (lookup sample_env ''gone.js'')"
    by (simp add: sample_env_def path_fails_def)
  then have "\<exists>p \<in> set [''a.js'', ''gone.js'', ''b.js''].
      path_fails (recursive \<lparr>recursive = False, output = None\<rparr>) (lookup sample_env p)"
    by simp
  with traversal_failure_aborts_run [of "[''a.js'', ''gone.js'', ''b.js'']"
      "\<lparr>recursive = False, output = None\<rparr>" sample_env] f
  show ?thesis by blast
qed

section \<open>The exit signal\<close>

lemma files_loop_total:
  "\<forall>rule \<in> set rules. productive rule \<Longrightarrow> \<exists>n. files_loop rules fs totalIssues = Some n"
proof (induction fs arbitrary: totalIssues)
  case Nil
  show ?case by simp
next
  case (Cons f fs)
  show ?case
  proof (cases "patch f")
    case None
    with Cons show ?thesis by simp
  next
    case (Some p)
    from lintFile_with_total [OF Cons.prems, of "filename f" p] obtain issues where
      "lintFile_with rules (filename f) p = Some issues" by blast
    with Some Cons show ?thesis by simp
  qed
qed

lemma LINT_RULES_no_error: "\<forall>rule \<in> set LINT_RULES. lint_rule.severity rule \<noteq> Error"
  by (simp add: LINT_RULES_def)

text \<open>
  C4, as the specification states it: for every run, the exit signal is failure if and
  only if the number of issues of severity error is greater than zero. A run of the lint
  command on a path that does not exist ends with the exception of \<^verbatim>\<open>statSync\<close>, which
  nothing catches: the process ends with the status 1, and the run has no issue of
  severity error, since it has no issue at all.
\<close>

theorem failure_without_error_issue:
  "lint_action sample_env [''gone.js''] \<lparr>recursive = False, output = None\<rparr> = Throws ENOENT \<and>
   exit_status (lint_action sample_env [''gone.js''] \<lparr>recursive = False, output = None\<rparr>) =
     Some 1"
  by (simp add: sample_run)

text \<open>
  C4, amended. For every run of the lint command that reaches its end, that is, that no
  uncaught exception aborts (an exception of the file system, or the \<^verbatim>\<open>RangeError\<close> of
  \<^verbatim>\<open>push\<close> when one file has too many issues), the exit status is 1 if and only if the number
  of issues of severity error accumulated over the run is greater than zero, and 0
  otherwise, whatever issues of severity warning or info there are; the error counter of
  the summary is that number. A run of the lint command that an uncaught exception aborts
  ends with the status 1 whatever issues it has found. The exit status of the pr command
  does not depend on the issues: it is 1 exactly when the token is missing or the listing
  of the files fails, and 0 when the token is there, the files are listed and the scan
  returns, which it always does with the built-in rules. With the built-in rules no issue
  has the severity error.
\<close>

theorem exit_signal:
  "(lint_action_with rules ev paths opts = Exit code report \<longrightarrow>
      (code = 1 \<longleftrightarrow> 0 < error_count (found report)) \<and>
      (code = 0 \<longleftrightarrow> error_count (found report) = 0) \<and>
      error (summary report) = error_count (found report)) \<and>
   (exit_status (lint_action_with rules ev paths opts) = Some 0 \<longleftrightarrow>
      (\<exists>report. lint_action_with rules ev paths opts = Exit 0 report \<and>
         error_count (found report) = 0)) \<and>
   (exit_status (lint_action_with rules ev paths opts) = Some 1 \<longleftrightarrow>
      (\<exists>e. lint_action_with rules ev paths opts = Throws e) \<or>
      (\<exists>report. lint_action_with rules ev paths opts = Exit 1 report \<and>
         0 < error_count (found report))) \<and>
   (exit_status (pr_action_with rules token listed) = Some 1 \<longleftrightarrow>
      token = None \<or> token = Some [] \<or> (\<exists>e. listed = Inl e)) \<and>
   (exit_status (pr_action_with rules token listed) = Some 0 \<longleftrightarrow>
      token \<noteq> None \<and> token \<noteq> Some [] \<and>
      (\<exists>fs n. listed = Inr fs \<and> files_loop rules fs 0 = Some n)) \<and>
   (token \<noteq> None \<and> token \<noteq> Some [] \<longrightarrow>
      (\<exists>n. pr_action token (Inr fs) = Exit 0 (FoundIssues n)) \<and>
      pr_action token (Inl e) = Throws e) \<and>
   (lintFile filePath content = Some issues \<longrightarrow> error_count issues = 0)"
proof -
  have lint: "(code = 1 \<longleftrightarrow> 0 < error_count (found report)) \<and>
      (code = 0 \<longleftrightarrow> error_count (found report) = 0) \<and>
      error (summary report) = error_count (found report)"
    if "lint_action_with rules ev paths opts = Exit code report" for code report
  proof -
    from lint_action_with_Exit [OF that] obtain st :: lint_state where
      st: "found report = allIssues st"
      "summary report = severity_loop (allIssues st) \<lparr>error = 0, warning = 0, info = 0\<rparr>"
      "code = (if error (summary report) > 0 then 1 else 0)" by blast
    from st(1,2) have e: "error (summary report) = error_count (found report)"
      by (simp add: severity_loop_error)
    with st(3) show ?thesis by simp
  qed
  have status0: "exit_status (lint_action_with rules ev paths opts) = Some 0 \<longleftrightarrow>
      (\<exists>report. lint_action_with rules ev paths opts = Exit 0 report \<and>
         error_count (found report) = 0)"
  proof (cases "lint_action_with rules ev paths opts")
    case (Exit code report)
    with lint [OF Exit] show ?thesis by auto
  qed simp_all
  have status1: "exit_status (lint_action_with rules ev paths opts) = Some 1 \<longleftrightarrow>
      (\<exists>e. lint_action_with rules ev paths opts = Throws e) \<or>
      (\<exists>report. lint_action_with rules ev paths opts = Exit 1 report \<and>
         0 < error_count (found report))"
  proof (cases "lint_action_with rules ev paths opts")
    case (Exit code report)
    with lint [OF Exit] show ?thesis by auto
  qed simp_all
  have pr1: "exit_status (pr_action_with rules token listed) = Some 1 \<longleftrightarrow>
      token = None \<or> token = Some [] \<or> (\<exists>e. listed = Inl e)"
    by (auto simp: pr_action_with_def split: sum.splits option.splits)
  have pr0: "exit_status (pr_action_with rules token listed) = Some 0 \<longleftrightarrow>
      token \<noteq> None \<and> token \<noteq> Some [] \<and>
      (\<exists>fs n. listed = Inr fs \<and> files_loop rules fs 0 = Some n)"
    by (auto simp: pr_action_with_def split: sum.splits option.splits)
  have pr: "(\<exists>n. pr_action token (Inr fs) = Exit 0 (FoundIssues n)) \<and>
      pr_action token (Inl e) = Throws e"
    if "token \<noteq> None \<and> token \<noteq> Some []"
  proof -
    from files_loop_total [OF LINT_RULES_productive] obtain n where
      "files_loop LINT_RULES fs 0 = Some n" by blast
    with that show ?thesis by (simp add: pr_action_def pr_action_with_def)
  qed
  have no_error: "error_count issues = 0" if a: "lintFile filePath content = Some issues"
  proof -
    have "lint_issue.severity x \<noteq> Error" if "x \<in> set issues" for x
    proof -
      from lintFile_with_issue [OF a [unfolded lintFile_def] that] obtain k r where
        r: "r \<in> set LINT_RULES" "x = issue_at filePath (k + 1) r (column x)" by blast
      from r(2) have "lint_issue.severity x = lint_rule.severity r"
        by (metis issue_at_def lint_issue.select_convs(4))
      with r(1) LINT_RULES_no_error show ?thesis by simp
    qed
    then show ?thesis by (simp add: error_count_def)
  qed
  from lint status0 status1 pr1 pr0 pr no_error show ?thesis by blast
qed

theorem exit_signal_witness:
  "(\<exists>report. lint_action_with [strict_var_rule] sample_env [''a.js'', ''b.js'']
       \<lparr>recursive = False, output = None\<rparr> = Exit 1 report \<and> 0 < error_count (found report)) \<and>
   (\<exists>report. lint_action_with LINT_RULES sample_env [''a.js'', ''b.js'']
       \<lparr>recursive = False, output = None\<rparr> = Exit 0 report \<and> error_count (found report) = 0 \<and>
       found report \<noteq> []) \<and>
   lint_action_with LINT_RULES (sample_env\<lparr>max_arguments := 0\<rparr>) [''a.js'', ''b.js'']
       \<lparr>recursive = False, output = None\<rparr> = Throws RangeError \<and>
   exit_status (lint_action_with LINT_RULES (sample_env\<lparr>max_arguments := 0\<rparr>) [''a.js'', ''b.js'']
       \<lparr>recursive = False, output = None\<rparr>) = Some 1 \<and>
   exit_status (pr_action_with LINT_RULES (Some ''token'') (Inl RequestError)) = Some 1"
proof -
  let ?opts = "\<lparr>recursive = False, output = None\<rparr>"
  let ?R1 = "\<lparr>files = 2, found = [issue_at ''a.js'' 1 strict_var_rule 1],
             summary = \<lparr>error = 1, warning = 0, info = 0\<rparr>, saved = None\<rparr>"
  let ?R0 = "\<lparr>files = 2, found = [issue_at ''a.js'' 1 (LINT_RULES ! 0) 1],
             summary = \<lparr>error = 0, warning = 1, info = 0\<rparr>, saved = None\<rparr>"
  have a: "lint_action_with [strict_var_rule] sample_env [''a.js'', ''b.js''] ?opts = Exit 1 ?R1"
    by (simp add: sample_run)
  have b: "lint_action_with LINT_RULES sample_env [''a.js'', ''b.js''] ?opts = Exit 0 ?R0"
    by (simp add: sample_run)
  have c: "lint_action_with LINT_RULES (sample_env\<lparr>max_arguments := 0\<rparr>) [''a.js'', ''b.js''] ?opts =
      Throws RangeError"
    by (simp add: sample_run)
  note lint = exit_signal [THEN conjunct1, rule_format]
  note status1 = exit_signal [THEN conjunct2, THEN conjunct2, THEN conjunct1]
  note pr1 = exit_signal [THEN conjunct2, THEN conjunct2, THEN conjunct2, THEN conjunct1]
  from lint [OF a] have e1: "0 < error_count (found ?R1)" by simp
  from lint [OF b] have e0: "error_count (found ?R0) = 0" by simp
  have n0: "found ?R0 \<noteq> []" by simp
  have s1: "exit_status (lint_action_with LINT_RULES (sample_env\<lparr>max_arguments := 0\<rparr>)
      [''a.js'', ''b.js''] ?opts) = Some 1"
    unfolding status1 using c by blast
  have p1: "exit_status (pr_action_with LINT_RULES (Some ''token'') (Inl RequestError)) = Some 1"
    unfolding pr1 by blast
  from a e1 have "\<exists>report. lint_action_with [strict_var_rule] sample_env [''a.js'', ''b.js''] ?opts =
      Exit 1 report \<and> 0 < error_count (found report)" by blast
  moreover from b e0 n0 have "\<exists>report. lint_action_with LINT_RULES sample_env [''a.js'', ''b.js'']
      ?opts = Exit 0 report \<and> error_count (found report) = 0 \<and> found report \<noteq> []" by blast
  ultimately show ?thesis using c s1 p1 by blast
qed

end
